theory Spec2Isabelle
  imports Main "HOL-Library.Sublist"
begin

section \<open>Paths\<close>

text \<open>
  A path is the list of its components, outermost first, as \<open>pathlib.Path.parts\<close> gives
  them without the anchor; paths are absolute and normalised (the scripts call
  \<open>resolve()\<close> or build them from \<open>__file__\<close>). Strings are byte strings.
\<close>

type_synonym path = "string list"

text \<open>\<open>Path.parent\<close>: the parent of the root is the root itself.\<close>

definition parent :: "path \<Rightarrow> path" where
  "parent p = butlast p"

text \<open>\<open>Path.name\<close>: the last component, the empty string for the root.\<close>

definition path_name :: "path \<Rightarrow> string" where
  "path_name p = (if p = [] then [] else last p)"

text \<open>\<open>str.rfind\<close> of one character: the highest index where it occurs, -1 when absent.\<close>

definition rfind :: "string \<Rightarrow> char \<Rightarrow> int" where
  "rfind s c =
     (if c \<in> set s
      then int (length s) - 1 - int (length (takeWhile (\<lambda>x. x \<noteq> c) (rev s)))
      else - 1)"

text \<open>
  \<open>Path.suffix\<close> and \<open>Path.stem\<close> (pathlib of Python 3.12):
  \<^verbatim>\<open>i = name.rfind('.'); if 0 < i < len(name) - 1: name[i:] / name[:i]  else: '' / name\<close>
\<close>

definition path_suffix :: "path \<Rightarrow> string" where
  "path_suffix p =
     (let nm = path_name p; i = rfind nm (CHR ''.'')
      in if 0 < i \<and> i < int (length nm) - 1 then drop (nat i) nm else [])"

definition stem :: "path \<Rightarrow> string" where
  "stem p =
     (let nm = path_name p; i = rfind nm (CHR ''.'')
      in if 0 < i \<and> i < int (length nm) - 1 then take (nat i) nm else nm)"

text \<open>\<open>str.lower\<close> on byte strings: the letters A to Z move to a to z.\<close>

definition lower_char :: "char \<Rightarrow> char" where
  "lower_char c =
     (case map_of (zip ''ABCDEFGHIJKLMNOPQRSTUVWXYZ'' ''abcdefghijklmnopqrstuvwxyz'') c of
        Some d \<Rightarrow> d
      | None \<Rightarrow> c)"

definition lower :: "string \<Rightarrow> string" where
  "lower s = map lower_char s"

text \<open>The scope test of all three scripts: \<open>suffix.lower() in (".jpg", ".jpeg")\<close>.\<close>

definition jpeg_suffix :: "path \<Rightarrow> bool" where
  "jpeg_suffix p = (lower (path_suffix p) \<in> set [''.jpg'', ''.jpeg''])"

datatype exn =
    FileNotFoundError
  | FileExistsError
  | NotADirectoryError
  | IsADirectoryError
  | ValueError
  | ZeroDivisionError
  | KeyError
  | UnidentifiedImageError
  | OSError string

text \<open>\<open>Path.relative_to\<close>: the components below \<open>base\<close>, ValueError for a path not under it.\<close>

definition relative_to :: "path \<Rightarrow> path \<Rightarrow> exn + path" where
  "relative_to p base =
     (if prefix base p then Inr (drop (length base) p) else Inl ValueError)"

section \<open>The file system\<close>

text \<open>
  A node is a directory or a regular file with its bytes. The scripts read below the
  input root and write below the output root, and the two do not overlap (the
  converter's constants, the compressor's timestamped directory). The input side is a
  snapshot, the list of its nodes in the order a directory scan gives them; the output
  side is the part of the file system the run changes, a map from paths to nodes.
\<close>

datatype node = Dir | File string

type_synonym tree = "(path \<times> node) list"

type_synonym fs = "path \<rightharpoonup> node"

definition path_exists :: "fs \<Rightarrow> path \<Rightarrow> bool" where
  "path_exists d p = (d p \<noteq> None)"

definition path_is_dir :: "fs \<Rightarrow> path \<Rightarrow> bool" where
  "path_is_dir d p = (d p = Some Dir)"

definition path_is_file :: "fs \<Rightarrow> path \<Rightarrow> bool" where
  "path_is_file d p = (case d p of Some (File c) \<Rightarrow> True | _ \<Rightarrow> False)"

text \<open>
  \<open>root.glob("**/*")\<close> and \<open>root.rglob("*")\<close>: every node strictly below a directory,
  nothing for a root that is not a directory.
\<close>

definition glob_all :: "tree \<Rightarrow> path \<Rightarrow> path list" where
  "glob_all src root =
     (if path_is_dir (map_of src) root then filter (strict_prefix root) (map fst src) else [])"

text \<open>\<open>stat().st_size\<close> of a regular file (the scripts ask it of nothing else).\<close>

definition st_size :: "fs \<Rightarrow> path \<Rightarrow> exn + nat" where
  "st_size d p =
     (case d p of
        None \<Rightarrow> Inl FileNotFoundError
      | Some Dir \<Rightarrow> Inr 0
      | Some (File c) \<Rightarrow> Inr (length c))"

text \<open>
  \<open>os.mkdir\<close>: one directory, whose parent must be a directory. A missing parent is
  FileNotFoundError, unless a regular file stands on the way to it: then the path
  cannot be resolved and the error is NotADirectoryError.
\<close>

definition os_mkdir :: "fs \<Rightarrow> path \<Rightarrow> exn + fs" where
  "os_mkdir d p =
     (if d p \<noteq> None then Inl FileExistsError
      else case d (parent p) of
             None \<Rightarrow>
               if list_ex (path_is_file d) (prefixes (parent p)) then Inl NotADirectoryError
               else Inl FileNotFoundError
           | Some (File c) \<Rightarrow> Inl NotADirectoryError
           | Some Dir \<Rightarrow> Inr (d(p \<mapsto> Dir)))"

text \<open>
  \<open>Path.mkdir(parents=True, exist_ok=True)\<close>, as pathlib writes it:
  \<^verbatim>\<open>
  try: os.mkdir(self, mode)
  except FileNotFoundError:
      if not parents or self.parent == self: raise
      self.parent.mkdir(parents=True, exist_ok=True)
      self.mkdir(mode, parents=False, exist_ok=exist_ok)
  except OSError:
      if not exist_ok or not self.is_dir(): raise
  \<close>
\<close>

definition mkdir_exist_ok :: "fs \<Rightarrow> path \<Rightarrow> exn + fs" where
  "mkdir_exist_ok d p =
     (case os_mkdir d p of
        Inr d' \<Rightarrow> Inr d'
      | Inl e \<Rightarrow>
          if e = FileNotFoundError then Inl e
          else if path_is_dir d p then Inr d else Inl e)"

function mkdir_parents :: "fs \<Rightarrow> path \<Rightarrow> exn + fs" where
  "mkdir_parents d p =
     (case os_mkdir d p of
        Inr d' \<Rightarrow> Inr d'
      | Inl e \<Rightarrow>
          if e = FileNotFoundError then
            (if parent p = p then Inl e
             else case mkdir_parents d (parent p) of
                    Inl e' \<Rightarrow> Inl e'
                  | Inr d' \<Rightarrow> mkdir_exist_ok d' p)
          else if path_is_dir d p then Inr d else Inl e)"
  by pat_completeness auto
termination
proof (relation "measure (\<lambda>(d, p). length p)")
  fix d :: fs and p :: path
  assume "parent p \<noteq> p"
  then have "p \<noteq> []"
    by (auto simp: parent_def)
  then show "((d, parent p), (d, p)) \<in> measure (\<lambda>(d, p). length p)"
    by (simp add: parent_def)
qed simp

declare mkdir_parents.simps [simp del]

text \<open>Opening a destination for writing and storing the bytes.\<close>

definition write_file :: "fs \<Rightarrow> path \<Rightarrow> string \<Rightarrow> exn + fs" where
  "write_file d p bytes =
     (case d p of
        Some Dir \<Rightarrow> Inl IsADirectoryError
      | _ \<Rightarrow>
          (case d (parent p) of
             None \<Rightarrow> Inl FileNotFoundError
           | Some (File c) \<Rightarrow> Inl NotADirectoryError
           | Some Dir \<Rightarrow> Inr (d(p \<mapsto> File bytes))))"

section \<open>The image codec\<close>

text \<open>
  Pillow is outside the repository: it is a parameter. \<open>identify\<close> is what
  \<open>Image.open\<close> makes of a file's bytes (the detected format, or the exception it
  raises, UnidentifiedImageError for bytes that are no image), \<open>encode\<close> what
  \<open>Image.save\<close> produces from an image and its keyword arguments (loading the pixels
  and encoding them). A save that raises is taken to leave the destination as it was.
  Pillow itself opens the destination once the pixels are loaded and before it encodes,
  so an encoder that fails leaves an existing destination empty and removes a new one;
  nothing below is stated about the destination of a save that raised.
\<close>

record image =
  format :: string
  pixels :: string

record save_params =
  save_format :: string
  quality :: int
  subsampling :: "int option"
  optimize :: bool

record codec =
  identify :: "string \<Rightarrow> exn + image"
  encode :: "image \<Rightarrow> save_params \<Rightarrow> exn + string"

definition Image_open :: "codec \<Rightarrow> fs \<Rightarrow> path \<Rightarrow> exn + image" where
  "Image_open cdc d p =
     (case d p of
        None \<Rightarrow> Inl FileNotFoundError
      | Some Dir \<Rightarrow> Inl IsADirectoryError
      | Some (File c) \<Rightarrow> identify cdc c)"

definition Image_save :: "codec \<Rightarrow> fs \<Rightarrow> image \<Rightarrow> path \<Rightarrow> save_params \<Rightarrow> exn + fs" where
  "Image_save cdc d img p params =
     (case encode cdc img params of
        Inl e \<Rightarrow> Inl e
      | Inr bytes \<Rightarrow> write_file d p bytes)"

section \<open>Log records and the state of a run\<close>

datatype level = INFO | WARNING | ERROR

text \<open>One constructor for each message the scripts format, with the values it carries.\<close>

datatype message =
    HeifNotice
  | InstallHint
  | Starting
  | Skip path
  | DetectedFormat path string
  | SavedAsJpeg path
  | NotRecognised path
  | ProcessingFailed path exn
  | Exc exn
  | Completed
  | DirectorySkipped path
  | NotJpegFile path
  | Compressed path path nat nat
  | ErrorProcessing path exn
  | InputMissing path
  | OutputExists path
  | InputDirectory path
  | OutputDirectory path
  | CompressionQuality int
  | Cancelled
  | CompressionCompleted
  | AnalysisStart path
  | DirectoryMissing path
  | ResultHeader
  | AnalysedDirectory path
  | TotalJpegFiles nat
  | UniqueNames nat
  | DuplicateNames nat
  | ProcessingTime
  | DuplicateListHeader
  | DuplicateDetailHeader
  | DuplicateName string nat
  | DuplicatePath path
  | DuplicateDetailCount nat
  | CountCompleted

text \<open>A record of the log: its level, its message, and whether \<open>exc_info=True\<close> was passed
  (the handler then prints the traceback of the exception).\<close>

datatype log_record = Log (level: level) (message: message) (exc_info: bool)

text \<open>
  The state a run threads through: the output side of the file system, the records
  logged so far (oldest first), and the images the script has opened and not closed.
\<close>

record state =
  disk :: fs
  logged :: "log_record list"
  opened :: "path list"

definition emit :: "level \<Rightarrow> message \<Rightarrow> bool \<Rightarrow> state \<Rightarrow> state" where
  "emit lv m tb st = st\<lparr>logged := logged st @ [Log lv m tb]\<rparr>"

abbreviation info :: "message \<Rightarrow> state \<Rightarrow> state" where
  "info m \<equiv> emit INFO m False"

text \<open>A \<open>for\<close> loop whose body may raise: the exception ends the loop.\<close>

fun for_each :: "('s \<Rightarrow> 'a \<Rightarrow> exn + 's) \<Rightarrow> 's \<Rightarrow> 'a list \<Rightarrow> exn + 's" where
  "for_each body st [] = Inr st"
| "for_each body st (x # xs) =
     (case body st x of Inl e \<Rightarrow> Inl e | Inr st' \<Rightarrow> for_each body st' xs)"

section \<open>The converter: py\_jpeg\_converter/main.py\<close>

definition convert_params :: save_params where
  "convert_params =
     \<lparr>save_format = ''JPEG'', quality = 100, subsampling = Some 0, optimize = False\<rparr>"

text \<open>The two \<open>except\<close> clauses of the converter, in their order.\<close>

definition convert_except :: "state \<Rightarrow> path \<Rightarrow> exn \<Rightarrow> state" where
  "convert_except st file_path e =
     (if e = UnidentifiedImageError
      then emit ERROR (Exc e) True (emit ERROR (NotRecognised file_path) False st)
      else emit ERROR (Exc e) True (emit ERROR (ProcessingFailed file_path e) False st))"

text \<open>The \<open>try\<close> statement of the converter (lines 91 to 109). The image is opened
  without \<open>with\<close> and never closed by the script.\<close>

definition convert_file :: "codec \<Rightarrow> tree \<Rightarrow> state \<Rightarrow> path \<Rightarrow> path \<Rightarrow> state" where
  "convert_file cdc src st file_path output_file =
     (case Image_open cdc (map_of src) file_path of
        Inl e \<Rightarrow> convert_except st file_path e
      | Inr img \<Rightarrow>
          let st1 = st\<lparr>opened := opened st @ [file_path]\<rparr>;
              st2 = info (DetectedFormat file_path (format img)) st1
          in (case Image_save cdc (disk st2) img output_file convert_params of
                Inl e \<Rightarrow> convert_except st2 file_path e
              | Inr d \<Rightarrow> info (SavedAsJpeg output_file) (st2\<lparr>disk := d\<rparr>)))"

text \<open>The body of the converter's loop (lines 74 to 109).\<close>

definition convert_entry ::
  "codec \<Rightarrow> tree \<Rightarrow> path \<Rightarrow> path \<Rightarrow> state \<Rightarrow> path \<Rightarrow> exn + state" where
  "convert_entry cdc src input_path output_path st file_path =
     (case relative_to file_path input_path of
        Inl e \<Rightarrow> Inl e
      | Inr relative_path \<Rightarrow>
          let output_file = output_path @ relative_path in
          if path_is_dir (map_of src) file_path then
            (case mkdir_parents (disk st) output_file of
               Inl e \<Rightarrow> Inl e
             | Inr d \<Rightarrow> Inr (st\<lparr>disk := d\<rparr>))
          else if \<not> jpeg_suffix file_path then
            Inr (info (Skip file_path) st)
          else
            (case mkdir_parents (disk st) (parent output_file) of
               Inl e \<Rightarrow> Inl e
             | Inr d \<Rightarrow> Inr (convert_file cdc src (st\<lparr>disk := d\<rparr>) file_path output_file)))"

definition process_jpeg_files :: "codec \<Rightarrow> tree \<Rightarrow> path \<Rightarrow> path \<Rightarrow> state \<Rightarrow> exn + state" where
  "process_jpeg_files cdc src input_path output_path st =
     (if \<not> path_exists (map_of src) input_path then Inl FileNotFoundError
      else case mkdir_parents (disk st) output_path of
             Inl e \<Rightarrow> Inl e
           | Inr d \<Rightarrow>
               for_each (convert_entry cdc src input_path output_path) (st\<lparr>disk := d\<rparr>)
                 (glob_all src input_path))"

definition converter_main :: "codec \<Rightarrow> tree \<Rightarrow> path \<Rightarrow> path \<Rightarrow> state \<Rightarrow> exn + state" where
  "converter_main cdc src input_path output_path st =
     (case process_jpeg_files cdc src input_path output_path
             (info Starting (info InstallHint (info HeifNotice st))) of
        Inl e \<Rightarrow> Inl e
      | Inr st' \<Rightarrow> Inr (info Completed st'))"

section \<open>The compressor: scripts/jpeg\_compressor/main.py\<close>

definition compress_params :: "int \<Rightarrow> save_params" where
  "compress_params q =
     \<lparr>save_format = ''JPEG'', quality = q, subsampling = None, optimize = True\<rparr>"

text \<open>The block under \<open>with Image.open(file_path) as img\<close> (lines 64 to 75): the state
  it leaves and the exception it raised, if any. The ratio is a division by the
  original size.\<close>

definition compress_with_body ::
  "codec \<Rightarrow> state \<Rightarrow> image \<Rightarrow> path \<Rightarrow> path \<Rightarrow> nat \<Rightarrow> int \<Rightarrow> state \<times> exn option" where
  "compress_with_body cdc st img file_path output_file_path original_size q =
     (case Image_save cdc (disk st) img output_file_path (compress_params q) of
        Inl e \<Rightarrow> (st, Some e)
      | Inr d \<Rightarrow>
          let st1 = st\<lparr>disk := d\<rparr> in
          (case st_size d output_file_path of
             Inl e \<Rightarrow> (st1, Some e)
           | Inr compressed_size \<Rightarrow>
               if original_size = 0 then (st1, Some ZeroDivisionError)
               else (info (Compressed file_path output_file_path original_size
                             compressed_size) st1, None)))"

text \<open>Closing an image takes the last entry for its path off the list of open images.\<close>

definition close_image :: "path \<Rightarrow> path list \<Rightarrow> path list" where
  "close_image p ps = rev (remove1 p (rev ps))"

text \<open>The \<open>try\<close> statement of the compressor (lines 59 to 77): the \<open>with\<close> statement
  closes the image on both ways out of its block.\<close>

definition compress_file :: "codec \<Rightarrow> tree \<Rightarrow> state \<Rightarrow> path \<Rightarrow> path \<Rightarrow> int \<Rightarrow> state" where
  "compress_file cdc src st file_path output_file_path q =
     (case st_size (map_of src) file_path of
        Inl e \<Rightarrow> emit ERROR (ErrorProcessing file_path e) True st
      | Inr original_size \<Rightarrow>
          (case Image_open cdc (map_of src) file_path of
             Inl e \<Rightarrow> emit ERROR (ErrorProcessing file_path e) True st
           | Inr img \<Rightarrow>
               let (st1, raised) =
                     compress_with_body cdc (st\<lparr>opened := opened st @ [file_path]\<rparr>) img
                       file_path output_file_path original_size q;
                   st2 = st1\<lparr>opened := close_image file_path (opened st1)\<rparr>
               in (case raised of
                     Some e \<Rightarrow> emit ERROR (ErrorProcessing file_path e) True st2
                   | None \<Rightarrow> st2)))"

text \<open>The body of the compressor's loop (lines 42 to 77).\<close>

definition compress_entry ::
  "codec \<Rightarrow> tree \<Rightarrow> path \<Rightarrow> path \<Rightarrow> int \<Rightarrow> state \<Rightarrow> path \<Rightarrow> exn + state" where
  "compress_entry cdc src input_path output_path q st file_path =
     (if path_is_dir (map_of src) file_path then
        Inr (info (DirectorySkipped file_path) st)
      else
        (case relative_to file_path input_path of
           Inl e \<Rightarrow> Inl e
         | Inr relative_path \<Rightarrow>
             let output_file_path = output_path @ relative_path in
             (case mkdir_parents (disk st) (parent output_file_path) of
                Inl e \<Rightarrow> Inl e
              | Inr d \<Rightarrow>
                  let st1 = st\<lparr>disk := d\<rparr> in
                  if \<not> jpeg_suffix file_path then
                    Inr (emit WARNING (NotJpegFile file_path) False st1)
                  else Inr (compress_file cdc src st1 file_path output_file_path q))))"

definition compress_jpeg :: "codec \<Rightarrow> tree \<Rightarrow> path \<Rightarrow> path \<Rightarrow> int \<Rightarrow> state \<Rightarrow> exn + state" where
  "compress_jpeg cdc src input_path output_path q st =
     (case mkdir_parents (disk st) output_path of
        Inl e \<Rightarrow> Inl e
      | Inr d \<Rightarrow>
          for_each (compress_entry cdc src input_path output_path q) (st\<lparr>disk := d\<rparr>)
            (glob_all src input_path))"

text \<open>Decimal digits of an integer, as an f-string formats it.\<close>

function str_nat :: "nat \<Rightarrow> string" where
  "str_nat n =
     (if n < 10 then [''0123456789'' ! n]
      else str_nat (n div 10) @ [''0123456789'' ! (n mod 10)])"
  by pat_completeness auto
termination
  by (relation "measure id") auto

declare str_nat.simps [simp del]

definition str_int :: "int \<Rightarrow> string" where
  "str_int i = (if i < 0 then CHR ''-'' # str_nat (nat (- i)) else str_nat (nat i))"

text \<open>
  \<open>main\<close> of the compressor. \<open>module_dir\<close> and \<open>datetime_str\<close> are the module's
  globals, \<open>answer\<close> is what the user types at the prompt.
\<close>

definition compressor_output_path :: "path \<Rightarrow> string \<Rightarrow> path \<Rightarrow> int \<Rightarrow> path" where
  "compressor_output_path module_dir datetime_str input_path q =
     module_dir @ [''output'', ''compressed'',
       datetime_str @ ''_'' @ path_name input_path @ ''_'' @ str_int q]"

definition compressor_main ::
  "codec \<Rightarrow> tree \<Rightarrow> path \<Rightarrow> string \<Rightarrow> string \<Rightarrow> path \<Rightarrow> int \<Rightarrow> state \<Rightarrow> exn + state" where
  "compressor_main cdc src module_dir datetime_str answer input_path q st =
     (if \<not> path_exists (map_of src) input_path then
        Inr (emit ERROR (InputMissing input_path) False st)
      else
        let output_path = compressor_output_path module_dir datetime_str input_path q in
        if path_exists (disk st) output_path then
          Inr (emit WARNING (OutputExists output_path) False st)
        else
          let st1 = info (CompressionQuality q)
                      (info (OutputDirectory output_path) (info (InputDirectory input_path) st))
          in if lower answer \<noteq> ''y'' then Inr (info Cancelled st1)
             else (case compress_jpeg cdc src input_path output_path q st1 of
                     Inl e \<Rightarrow> Inl e
                   | Inr st2 \<Rightarrow> Inr (info CompressionCompleted st2)))"

section \<open>The counter: scripts/jpeg\_counter/main.py\<close>

text \<open>
  A \<open>dict\<close> is a list of keys with their values in the order the keys were first
  inserted. \<open>Counter(iterable)\<close> adds one to the count of each element in turn.
\<close>

fun counter_add :: "('k \<times> nat) list \<Rightarrow> 'k \<Rightarrow> ('k \<times> nat) list" where
  "counter_add [] k = [(k, 1)]"
| "counter_add ((k', c) # kcs) k =
     (if k' = k then (k', Suc c) # kcs else (k', c) # counter_add kcs k)"

definition Counter :: "'k list \<Rightarrow> ('k \<times> nat) list" where
  "Counter xs = foldl counter_add [] xs"

text \<open>
  \<open>Counter.most_common()\<close> is \<open>sorted(self.items(), key=itemgetter(1), reverse=True)\<close>:
  a stable sort on the counts that reverses the list before and after.
\<close>

definition most_common :: "('k \<times> nat) list \<Rightarrow> ('k \<times> nat) list" where
  "most_common kcs = rev (sort_key snd (rev kcs))"

text \<open>\<open>if stem not in filename_paths: filename_paths[stem] = []\<close> and the \<open>append\<close>.\<close>

fun dict_append :: "('k \<times> 'v list) list \<Rightarrow> 'k \<Rightarrow> 'v \<Rightarrow> ('k \<times> 'v list) list" where
  "dict_append [] k v = [(k, [v])]"
| "dict_append ((k', vs) # kvs) k v =
     (if k' = k then (k', vs @ [v]) # kvs else (k', vs) # dict_append kvs k v)"

definition jpeg_files :: "tree \<Rightarrow> path \<Rightarrow> path list" where
  "jpeg_files src input_path =
     filter (\<lambda>f. path_is_file (map_of src) f \<and> jpeg_suffix f) (glob_all src input_path)"

definition filename_counter :: "path list \<Rightarrow> (string \<times> nat) list" where
  "filename_counter files = Counter (map stem files)"

definition filename_paths :: "path list \<Rightarrow> (string \<times> path list) list" where
  "filename_paths files = foldl (\<lambda>d file_path. dict_append d (stem file_path) file_path) [] files"

definition duplicates :: "path list \<Rightarrow> (string \<times> nat) list" where
  "duplicates files = filter (\<lambda>(nm, count). count > 1) (most_common (filename_counter files))"

text \<open>The rows of the table: \<open>filename_paths[name]\<close> raises KeyError for a missing key.\<close>

fun table_rows ::
  "(string \<times> path list) list \<Rightarrow> (string \<times> nat) list \<Rightarrow> exn + (string \<times> nat \<times> path list) list" where
  "table_rows paths [] = Inr []"
| "table_rows paths ((nm, count) # ds) =
     (case map_of paths nm of
        None \<Rightarrow> Inl KeyError
      | Some all_paths \<Rightarrow>
          (case table_rows paths ds of
             Inl e \<Rightarrow> Inl e
           | Inr rows \<Rightarrow> Inr ((nm, count, all_paths) # rows)))"

text \<open>What the counter shows: its log and the table it prints, when there is one.\<close>

record report =
  report_log :: "log_record list"
  report_table :: "(string \<times> nat \<times> path list) list option"

definition detail_records :: "(string \<times> nat \<times> path list) list \<Rightarrow> log_record list" where
  "detail_records rows =
     concat (map (\<lambda>(nm, count, all_paths).
                    Log INFO (DuplicateName nm count) False #
                    map (\<lambda>p. Log INFO (DuplicatePath p) False) all_paths) rows)"

definition counter_main :: "tree \<Rightarrow> path \<Rightarrow> exn + report" where
  "counter_main src input_path =
     (let log0 = [Log INFO (AnalysisStart input_path) False] in
      if \<not> path_exists (map_of src) input_path then
        Inr \<lparr>report_log = log0 @ [Log ERROR (DirectoryMissing input_path) False],
             report_table = None\<rparr>
      else
        let files = jpeg_files src input_path;
            counter = filename_counter files;
            log1 = log0 @
              [Log INFO ResultHeader False,
               Log INFO (AnalysedDirectory input_path) False,
               Log INFO (TotalJpegFiles (length files)) False,
               Log INFO (UniqueNames (length counter)) False,
               Log INFO (DuplicateNames (length (filter (\<lambda>c. c > 1) (map snd counter)))) False,
               Log INFO ProcessingTime False];
            dups = duplicates files
        in if dups = [] then
             Inr \<lparr>report_log = log1 @ [Log INFO CountCompleted False], report_table = None\<rparr>
           else
             (case table_rows (filename_paths files) dups of
                Inl e \<Rightarrow> Inl e
              | Inr rows \<Rightarrow>
                  Inr \<lparr>report_log = log1 @ [Log INFO DuplicateListHeader False,
                                            Log INFO DuplicateDetailHeader False] @
                          detail_records rows @
                          [Log INFO (DuplicateDetailCount (length dups)) False,
                           Log INFO CountCompleted False],
                       report_table = Some rows\<rparr>))"

section \<open>Example inputs\<close>

text \<open>A stand-in codec for the examples: bytes that start with \<open>JPEG\<close> or \<open>HEIF\<close> are
  images, \<open>JPEG!\<close> marks image data that is identified and then fails to decode.\<close>

definition toy_identify :: "string \<Rightarrow> exn + image" where
  "toy_identify c =
     (if take 4 c = ''JPEG'' then Inr \<lparr>format = ''JPEG'', pixels = drop 4 c\<rparr>
      else if take 4 c = ''HEIF'' then Inr \<lparr>format = ''HEIF'', pixels = drop 4 c\<rparr>
      else Inl UnidentifiedImageError)"

definition toy_encode :: "image \<Rightarrow> save_params \<Rightarrow> exn + string" where
  "toy_encode img params =
     (if take 1 (pixels img) = ''!'' then Inl (OSError ''image file is truncated'')
      else Inr (save_format params @ pixels img))"

definition toy_codec :: codec where
  "toy_codec = \<lparr>identify = toy_identify, encode = toy_encode\<rparr>"

text \<open>A file system that holds its root directory and nothing else, and the state a
  run starts in on it.\<close>

definition root_only :: fs where
  "root_only = [[] \<mapsto> Dir]"

definition start :: state where
  "start = \<lparr>disk = root_only, logged = [], opened = []\<rparr>"

section \<open>Well-formed file systems and the effect of an entry\<close>

text \<open>In a file system every node's parent is a directory, and the root is one.\<close>

definition closed :: "fs \<Rightarrow> bool" where
  "closed d = (\<forall>p. d p \<noteq> None \<longrightarrow> d (parent p) = Some Dir)"

definition fs_ok :: "fs \<Rightarrow> bool" where
  "fs_ok d = (d [] = Some Dir \<and> closed d)"

text \<open>The same for a snapshot, whose paths are also listed once each.\<close>

definition tree_ok :: "tree \<Rightarrow> bool" where
  "tree_ok src =
     (distinct (map fst src) \<and> list_all (\<lambda>(p, n). map_of src (parent p) = Some Dir) src)"

text \<open>The mirrored path: \<open>output_path / file_path.relative_to(input_path)\<close>.\<close>

definition mirror :: "path \<Rightarrow> path \<Rightarrow> path \<Rightarrow> path" where
  "mirror input_path output_path p = output_path @ drop (length input_path) p"

text \<open>
  What the output side may hold when a run starts: no regular file on the way to the
  output root, and below the root only nodes of the kind the input has at the same
  relative path (nothing at all, or what an earlier run over the same input left).
\<close>

definition output_ok :: "tree \<Rightarrow> path \<Rightarrow> path \<Rightarrow> fs \<Rightarrow> bool" where
  "output_ok src input_path output_path d =
     (fs_ok d \<and>
      (\<forall>q c. prefix q output_path \<longrightarrow> d q \<noteq> Some (File c)) \<and>
      (\<forall>rel. rel \<noteq> [] \<longrightarrow>
         (case d (output_path @ rel) of
            None \<Rightarrow> True
          | Some Dir \<Rightarrow> path_is_dir (map_of src) (input_path @ rel)
          | Some (File c) \<Rightarrow> path_is_file (map_of src) (input_path @ rel))))"

text \<open>\<open>make_dirs d t\<close>: the directories missing on the way to \<open>t\<close>, and \<open>t\<close>, added.\<close>

definition make_dirs :: "fs \<Rightarrow> path \<Rightarrow> fs" where
  "make_dirs d t = (\<lambda>q. if d q = None \<and> prefix q t then Some Dir else d q)"

text \<open>
  What one entry of the walk does when nothing raises out of the loop body: the
  directory it makes, the file it writes, the records it logs, the images it leaves open.
\<close>

record effect =
  makes :: "path option"
  writes :: "(path \<times> string) option"
  says :: "log_record list"
  leaves_open :: "path list"

definition apply_effect :: "effect \<Rightarrow> state \<Rightarrow> state" where
  "apply_effect e st =
     (let d1 = (case makes e of None \<Rightarrow> disk st | Some t \<Rightarrow> make_dirs (disk st) t);
          d2 = (case writes e of None \<Rightarrow> d1 | Some (p, b) \<Rightarrow> d1(p \<mapsto> File b))
      in \<lparr>disk = d2, logged = logged st @ says e, opened = opened st @ leaves_open e\<rparr>)"

definition apply_effects :: "('a \<Rightarrow> effect) \<Rightarrow> state \<Rightarrow> 'a list \<Rightarrow> state" where
  "apply_effects eff st xs = foldl (\<lambda>s x. apply_effect (eff x) s) st xs"

text \<open>The bytes the last write to \<open>q\<close> among the entries left there.\<close>

fun last_write :: "('a \<Rightarrow> effect) \<Rightarrow> 'a list \<Rightarrow> path \<Rightarrow> string option" where
  "last_write eff [] q = None"
| "last_write eff (x # xs) q =
     (case last_write eff xs q of
        Some b \<Rightarrow> Some b
      | None \<Rightarrow> (case writes (eff x) of
                   Some (p, b) \<Rightarrow> if p = q then Some b else None
                 | None \<Rightarrow> None))"

definition made_by :: "('a \<Rightarrow> effect) \<Rightarrow> 'a list \<Rightarrow> path \<Rightarrow> bool" where
  "made_by eff xs q = (\<exists>x \<in> set xs. case makes (eff x) of Some t \<Rightarrow> prefix q t | None \<Rightarrow> False)"

text \<open>The result of the converter's \<open>try\<close> statement on an in-scope file.\<close>

definition convert_result :: "codec \<Rightarrow> tree \<Rightarrow> path \<Rightarrow> exn + image \<times> (exn + string)" where
  "convert_result cdc src f =
     (case Image_open cdc (map_of src) f of
        Inl e \<Rightarrow> Inl e
      | Inr img \<Rightarrow> Inr (img, encode cdc img convert_params))"

definition except_records :: "path \<Rightarrow> exn \<Rightarrow> log_record list" where
  "except_records f e =
     (if e = UnidentifiedImageError
      then [Log ERROR (NotRecognised f) False, Log ERROR (Exc e) True]
      else [Log ERROR (ProcessingFailed f e) False, Log ERROR (Exc e) True])"

definition convert_effect :: "codec \<Rightarrow> tree \<Rightarrow> path \<Rightarrow> path \<Rightarrow> path \<Rightarrow> effect" where
  "convert_effect cdc src input_path output_path f =
     (let target = mirror input_path output_path f in
      if path_is_dir (map_of src) f then
        \<lparr>makes = Some target, writes = None, says = [], leaves_open = []\<rparr>
      else if \<not> jpeg_suffix f then
        \<lparr>makes = None, writes = None, says = [Log INFO (Skip f) False], leaves_open = []\<rparr>
      else
        (case convert_result cdc src f of
           Inl e \<Rightarrow>
             \<lparr>makes = Some (parent target), writes = None, says = except_records f e,
              leaves_open = []\<rparr>
         | Inr (img, Inl e) \<Rightarrow>
             \<lparr>makes = Some (parent target), writes = None,
              says = Log INFO (DetectedFormat f (format img)) False # except_records f e,
              leaves_open = [f]\<rparr>
         | Inr (img, Inr b) \<Rightarrow>
             \<lparr>makes = Some (parent target), writes = Some (target, b),
              says = [Log INFO (DetectedFormat f (format img)) False,
                      Log INFO (SavedAsJpeg target) False],
              leaves_open = [f]\<rparr>))"

text \<open>The same for the compressor, whose \<open>with\<close> statement leaves no image open.\<close>

definition compress_says :: "codec \<Rightarrow> tree \<Rightarrow> path \<Rightarrow> path \<Rightarrow> int \<Rightarrow> log_record list \<times> string option" where
  "compress_says cdc src f target q =
     (case st_size (map_of src) f of
        Inl e \<Rightarrow> ([Log ERROR (ErrorProcessing f e) True], None)
      | Inr original_size \<Rightarrow>
          (case Image_open cdc (map_of src) f of
             Inl e \<Rightarrow> ([Log ERROR (ErrorProcessing f e) True], None)
           | Inr img \<Rightarrow>
               (case encode cdc img (compress_params q) of
                  Inl e \<Rightarrow> ([Log ERROR (ErrorProcessing f e) True], None)
                | Inr b \<Rightarrow>
                    (if original_size = 0
                     then [Log ERROR (ErrorProcessing f ZeroDivisionError) True]
                     else [Log INFO (Compressed f target original_size (length b)) False],
                     Some b))))"

definition compress_effect :: "codec \<Rightarrow> tree \<Rightarrow> path \<Rightarrow> path \<Rightarrow> int \<Rightarrow> path \<Rightarrow> effect" where
  "compress_effect cdc src input_path output_path q f =
     (let target = mirror input_path output_path f in
      if path_is_dir (map_of src) f then
        \<lparr>makes = None, writes = None, says = [Log INFO (DirectorySkipped f) False],
         leaves_open = []\<rparr>
      else if \<not> jpeg_suffix f then
        \<lparr>makes = Some (parent target), writes = None,
         says = [Log WARNING (NotJpegFile f) False], leaves_open = []\<rparr>
      else
        (case compress_says cdc src f target q of
           (records, written) \<Rightarrow>
             \<lparr>makes = Some (parent target),
              writes = (case written of None \<Rightarrow> None | Some b \<Rightarrow> Some (target, b)),
              says = records, leaves_open = []\<rparr>))"

section \<open>Example trees and states\<close>

text \<open>Two photographs and a file that is no image under a \<open>.jpg\<close> name, a text file,
  an empty directory.\<close>

definition example_tree :: tree where
  "example_tree =
     [([], Dir),
      ([''in''], Dir),
      ([''in'', ''a''], Dir),
      ([''in'', ''a'', ''photo1.jpg''], File ''JPEG-one''),
      ([''in'', ''a'', ''bad.jpg''], File ''not an image''),
      ([''in'', ''a'', ''notes.txt''], File ''hello''),
      ([''in'', ''b''], Dir),
      ([''in'', ''b'', ''photo1.JPEG''], File ''JPEG-two''),
      ([''in'', ''empty''], Dir)]"

text \<open>A tree with no file in scope.\<close>

definition documents_tree :: tree where
  "documents_tree =
     [([], Dir),
      ([''in''], Dir),
      ([''in'', ''docs''], Dir),
      ([''in'', ''docs'', ''notes.txt''], File ''hello''),
      ([''in'', ''docs'', ''scan.png''], File ''PNG'')]"

text \<open>An album with base names that repeat across directories.\<close>

definition album_tree :: tree where
  "album_tree =
     [([], Dir),
      ([''in''], Dir),
      ([''in'', ''a''], Dir),
      ([''in'', ''a'', ''photo1.jpg''], File ''JPEG-1''),
      ([''in'', ''a'', ''photo2.jpg''], File ''JPEG-2''),
      ([''in'', ''a'', ''photo3.jpg''], File ''JPEG-3''),
      ([''in'', ''a'', ''photo1.txt''], File ''text''),
      ([''in'', ''b''], Dir),
      ([''in'', ''b'', ''photo2.JPG''], File ''JPEG-4''),
      ([''in'', ''b'', ''photo1.jpeg''], File ''JPEG-5''),
      ([''in'', ''b'', ''x.jpg''], File ''JPEG-6''),
      ([''in'', ''c''], Dir),
      ([''in'', ''c'', ''x.jpg''], File ''JPEG-7''),
      ([''in'', ''c'', ''x.jpeg''], File ''JPEG-8'')]"

text \<open>A tree with one file that is identified as an image and fails to decode.\<close>

definition truncated_tree :: tree where
  "truncated_tree = [([], Dir), ([''in''], Dir), ([''in'', ''cut.jpg''], File ''JPEG!'')]"

text \<open>An input root that is a regular file.\<close>

definition file_root_tree :: tree where
  "file_root_tree = [([], Dir), ([''in''], File ''JPEG-one'')]"

text \<open>An output root that holds a regular file under the name of an input directory.\<close>

definition occupied :: state where
  "occupied =
     \<lparr>disk = [[] \<mapsto> Dir, [''out''] \<mapsto> Dir, [''out'', ''a''] \<mapsto> File ''old''],
      logged = [], opened = []\<rparr>"

text \<open>A state in which the compressor's output directory of the example run exists
  and holds an output of an earlier run.\<close>

definition earlier_output :: path where
  "earlier_output = [''m'', ''output'', ''compressed'', ''t_in_90'']"

definition reused :: state where
  "reused =
     \<lparr>disk = (make_dirs root_only (earlier_output @ [''a'']))
               (earlier_output @ [''a'', ''photo1.jpg''] \<mapsto> File ''old''),
      logged = [], opened = []\<rparr>"

text \<open>Output sides with a regular file where a directory is to be made: \<open>out/b\<close> for
  the example tree, \<open>out/docs\<close> for the documents.\<close>

definition blocked_b :: state where
  "blocked_b =
     \<lparr>disk = [[] \<mapsto> Dir, [''out''] \<mapsto> Dir, [''out'', ''b''] \<mapsto> File ''old''],
      logged = [], opened = []\<rparr>"

definition docs_blocked :: state where
  "docs_blocked =
     \<lparr>disk = [[] \<mapsto> Dir, [''out''] \<mapsto> Dir, [''out'', ''docs''] \<mapsto> File ''old''],
      logged = [], opened = []\<rparr>"

text \<open>Papers in two directories, none in scope.\<close>

definition papers_tree :: tree where
  "papers_tree =
     [([], Dir),
      ([''in''], Dir),
      ([''in'', ''docs''], Dir),
      ([''in'', ''docs'', ''notes.txt''], File ''hello''),
      ([''in'', ''scans''], Dir),
      ([''in'', ''scans'', ''scan.png''], File ''PNG'')]"

section \<open>Reading the log\<close>

text \<open>The source file a message names, for the messages that name one.\<close>

fun subject :: "message \<Rightarrow> path option" where
  "subject (Skip p) = Some p"
| "subject (DetectedFormat p fm) = Some p"
| "subject (NotRecognised p) = Some p"
| "subject (ProcessingFailed p e) = Some p"
| "subject (DirectorySkipped p) = Some p"
| "subject (NotJpegFile p) = Some p"
| "subject (Compressed p t n m) = Some p"
| "subject (ErrorProcessing p e) = Some p"
| "subject m = None"

text \<open>Every path a message carries.\<close>

fun named :: "message \<Rightarrow> path list" where
  "named (Skip p) = [p]"
| "named (DetectedFormat p fm) = [p]"
| "named (SavedAsJpeg p) = [p]"
| "named (NotRecognised p) = [p]"
| "named (ProcessingFailed p e) = [p]"
| "named (DirectorySkipped p) = [p]"
| "named (NotJpegFile p) = [p]"
| "named (Compressed p t n m) = [p, t]"
| "named (ErrorProcessing p e) = [p]"
| "named (InputMissing p) = [p]"
| "named (OutputExists p) = [p]"
| "named (InputDirectory p) = [p]"
| "named (OutputDirectory p) = [p]"
| "named (AnalysisStart p) = [p]"
| "named (DirectoryMissing p) = [p]"
| "named (AnalysedDirectory p) = [p]"
| "named (DuplicatePath p) = [p]"
| "named m = []"

text \<open>The messages the two batch scripts log inside their loops, one entry at a time.\<close>

fun is_entry_message :: "message \<Rightarrow> bool" where
  "is_entry_message (Skip p) = True"
| "is_entry_message (DetectedFormat p fm) = True"
| "is_entry_message (SavedAsJpeg p) = True"
| "is_entry_message (NotRecognised p) = True"
| "is_entry_message (ProcessingFailed p e) = True"
| "is_entry_message (Exc e) = True"
| "is_entry_message (DirectorySkipped p) = True"
| "is_entry_message (NotJpegFile p) = True"
| "is_entry_message (Compressed p t n m) = True"
| "is_entry_message (ErrorProcessing p e) = True"
| "is_entry_message m = False"

text \<open>The records a run added to the log it started with.\<close>

definition added :: "state \<Rightarrow> state \<Rightarrow> log_record list" where
  "added st st' = drop (length (logged st)) (logged st')"

text \<open>The records a \<open>try\<close> statement logs about its source file.\<close>

fun is_attempt :: "message \<Rightarrow> bool" where
  "is_attempt (DetectedFormat p fm) = True"
| "is_attempt (NotRecognised p) = True"
| "is_attempt (ProcessingFailed p e) = True"
| "is_attempt (Compressed p t n m) = True"
| "is_attempt (ErrorProcessing p e) = True"
| "is_attempt m = False"

section \<open>Valid and corrupted files\<close>

text \<open>The bytes of a regular file of the snapshot.\<close>

definition content :: "tree \<Rightarrow> path \<Rightarrow> string" where
  "content src f = (case map_of src f of Some (File c) \<Rightarrow> c | _ \<Rightarrow> [])"

text \<open>A valid image: bytes, not empty, that the codec identifies and encodes under the
  given parameters. A corrupted one: bytes the codec does not recognise as an image.\<close>

definition valid_image :: "codec \<Rightarrow> save_params \<Rightarrow> string \<Rightarrow> bool" where
  "valid_image cdc params c =
     (c \<noteq> [] \<and>
      (case identify cdc c of
         Inl e \<Rightarrow> False
       | Inr img \<Rightarrow> (case encode cdc img params of Inl e \<Rightarrow> False | Inr b \<Rightarrow> True)))"

definition corrupted :: "codec \<Rightarrow> string \<Rightarrow> bool" where
  "corrupted cdc c = (identify cdc c = Inl UnidentifiedImageError)"

text \<open>The records of a written output.\<close>

fun is_saved :: "message \<Rightarrow> bool" where
  "is_saved (SavedAsJpeg p) = True"
| "is_saved (Compressed p t n m) = True"
| "is_saved m = False"

text \<open>The bytes the converter writes for a file, when its \<open>try\<close> statement succeeds.\<close>

definition convert_output :: "codec \<Rightarrow> tree \<Rightarrow> path \<Rightarrow> string option" where
  "convert_output cdc src f =
     (case Image_open cdc (map_of src) f of
        Inl e \<Rightarrow> None
      | Inr img \<Rightarrow> (case encode cdc img convert_params of Inl e \<Rightarrow> None | Inr b \<Rightarrow> Some b))"

section \<open>Failures of an entry\<close>

text \<open>The exception the converter's \<open>try\<close> statement catches on a file, if any, when the
  destination can be written.\<close>

definition convert_failure :: "codec \<Rightarrow> tree \<Rightarrow> path \<Rightarrow> exn option" where
  "convert_failure cdc src f =
     (case convert_result cdc src f of
        Inl e \<Rightarrow> Some e
      | Inr (img, Inl e) \<Rightarrow> Some e
      | Inr (img, Inr b) \<Rightarrow> None)"

text \<open>The same for the compressor.\<close>

definition compress_failure :: "codec \<Rightarrow> tree \<Rightarrow> int \<Rightarrow> path \<Rightarrow> exn option" where
  "compress_failure cdc src q f =
     (case st_size (map_of src) f of
        Inl e \<Rightarrow> Some e
      | Inr original_size \<Rightarrow>
          (case Image_open cdc (map_of src) f of
             Inl e \<Rightarrow> Some e
           | Inr img \<Rightarrow>
               (case encode cdc img (compress_params q) of
                  Inl e \<Rightarrow> Some e
                | Inr b \<Rightarrow> if original_size = 0 then Some ZeroDivisionError else None)))"

section \<open>Reading the counter's report\<close>

text \<open>The elements of a list in the order of their first occurrence.\<close>

fun first_seen :: "'a list \<Rightarrow> 'a list" where
  "first_seen [] = []"
| "first_seen (x # xs) = x # removeAll x (first_seen xs)"

text \<open>The groups a report lists: none when it prints no table.\<close>

definition reported :: "report \<Rightarrow> (string \<times> nat \<times> path list) list" where
  "reported rep = (case report_table rep of None \<Rightarrow> [] | Some rows \<Rightarrow> rows)"

text \<open>The files of a list that share a base name.\<close>

definition group_of :: "path list \<Rightarrow> string \<Rightarrow> path list" where
  "group_of files nm = filter (\<lambda>f. stem f = nm) files"

section \<open>The extension of a name\<close>

text \<open>
  The scope test in the words of the specification: the name ends, after at least one
  other character, in \<open>.jpg\<close> or \<open>.jpeg\<close> written in any mix of upper and lower case.
\<close>

definition ends_with_ci :: "string \<Rightarrow> string \<Rightarrow> bool" where
  "ends_with_ci nm e =
     (length e < length nm \<and> lower (drop (length nm - length e) nm) = e)"

definition has_jpeg_extension :: "string \<Rightarrow> bool" where
  "has_jpeg_extension nm = (ends_with_ci nm ''.jpg'' \<or> ends_with_ci nm ''.jpeg'')"

section \<open>Directory creation\<close>

lemma parent_snoc [simp]: "parent (p @ [x]) = p"
  by (simp add: parent_def)

lemma parent_Nil [simp]: "parent [] = []"
  by (simp add: parent_def)

lemma parent_append: "rel \<noteq> [] \<Longrightarrow> parent (out @ rel) = out @ parent rel"
  by (simp add: parent_def butlast_append)

lemma prefix_parent: "prefix (parent p) p"
  by (cases p rule: rev_cases) simp_all

lemma prefix_parent_iff: "prefix q p \<longleftrightarrow> q = p \<or> (p \<noteq> [] \<and> prefix q (parent p))"
  by (cases p rule: rev_cases) auto

lemma closed_prefix:
  "closed d \<Longrightarrow> d p \<noteq> None \<Longrightarrow> prefix q p \<Longrightarrow> q \<noteq> p \<Longrightarrow> d q = Some Dir"
proof (induction p rule: rev_induct)
  case Nil
  then show ?case by simp
next
  case (snoc x ps)
  from snoc.prems(1,2) have dir: "d ps = Some Dir"
    unfolding closed_def by (metis parent_snoc)
  from snoc.prems(3,4) have "prefix q ps"
    by auto
  then show ?case
    using snoc.IH [OF snoc.prems(1)] dir by (cases "q = ps") auto
qed

lemma closed_prefix_exists:
  "closed d \<Longrightarrow> d p \<noteq> None \<Longrightarrow> prefix q p \<Longrightarrow> d q \<noteq> None"
  using closed_prefix by (cases "q = p") fastforce+

lemma make_dirs_target:
  "\<forall>c. d t \<noteq> Some (File c) \<Longrightarrow> make_dirs d t t = Some Dir"
  by (cases "d t") (auto simp: make_dirs_def split: node.splits intro: node.exhaust)

lemma make_dirs_same:
  "closed d \<Longrightarrow> d t \<noteq> None \<Longrightarrow> make_dirs d t = d"
  by (auto simp: make_dirs_def fun_eq_iff dest: closed_prefix_exists)

lemma make_dirs_step:
  assumes "closed d" "d t = None" "d (parent t) = Some Dir"
  shows "make_dirs d t = d(t \<mapsto> Dir)"
proof
  fix q
  show "make_dirs d t q = (d(t \<mapsto> Dir)) q"
  proof (cases "q = t")
    case True
    then show ?thesis using assms by (simp add: make_dirs_def)
  next
    case False
    have "d q \<noteq> None" if "prefix q t"
    proof -
      from that False have "t \<noteq> [] \<and> prefix q (parent t)"
        using prefix_parent_iff by blast
      then show ?thesis
        using closed_prefix_exists [OF assms(1), of "parent t" q] assms(3) by simp
    qed
    then show ?thesis using False by (auto simp: make_dirs_def)
  qed
qed

lemma make_dirs_parent:
  assumes "t \<noteq> []" "d t = None"
  shows "(make_dirs d (parent t))(t \<mapsto> Dir) = make_dirs d t"
proof
  fix q
  show "((make_dirs d (parent t))(t \<mapsto> Dir)) q = make_dirs d t q"
    using assms prefix_parent_iff [of q t] by (auto simp: make_dirs_def)
qed

lemma mkdir_parents_make_dirs:
  "fs_ok d \<Longrightarrow> (\<forall>q c. prefix q p \<longrightarrow> d q \<noteq> Some (File c)) \<Longrightarrow>
     mkdir_parents d p = Inr (make_dirs d p)"
proof (induction d p rule: mkdir_parents.induct)
  case (1 d p)
  have cl: "closed d" and root: "d [] = Some Dir"
    using "1.prems"(1) by (auto simp: fs_ok_def)
  show ?case
  proof (cases "d p")
    case (Some n)
    with "1.prems"(2) have "d p = Some Dir"
      by (cases n) auto
    then show ?thesis
      using make_dirs_same [of d p] cl
      by (subst mkdir_parents.simps) (simp add: os_mkdir_def path_is_dir_def)
  next
    case None
    then have ne: "p \<noteq> []" using root by auto
    then have pp: "parent p \<noteq> p"
      by (cases p rule: rev_cases) auto
    show ?thesis
    proof (cases "d (parent p)")
      case nn: None
      have nofile: "\<forall>q c. prefix q (parent p) \<longrightarrow> d q \<noteq> Some (File c)"
        using "1.prems"(2) prefix_parent prefix_order.trans by blast
      then have "\<not> list_ex (path_is_file d) (prefixes (parent p))"
        by (auto simp: list_ex_iff path_is_file_def split: option.splits node.splits)
      then have os: "os_mkdir d p = Inl FileNotFoundError"
        using None nn by (simp add: os_mkdir_def)
      have ih: "mkdir_parents d (parent p) = Inr (make_dirs d (parent p))"
        using "1.IH" [OF os refl pp "1.prems"(1) nofile] .
      have a: "make_dirs d (parent p) p = None"
        using None pp by (auto simp: make_dirs_def dest: prefix_order.antisym [OF prefix_parent])
      have b: "make_dirs d (parent p) (parent p) = Some Dir"
        using nn by (simp add: make_dirs_def)
      have "mkdir_exist_ok (make_dirs d (parent p)) p = Inr ((make_dirs d (parent p))(p \<mapsto> Dir))"
        using a b by (simp add: mkdir_exist_ok_def os_mkdir_def)
      then show ?thesis
        using os ih pp make_dirs_parent [of p d] ne None
        by (subst mkdir_parents.simps) simp
    next
      case (Some n)
      with "1.prems"(2) prefix_parent [of p] have dir: "d (parent p) = Some Dir"
        by (cases n) auto
      then show ?thesis
        using None make_dirs_step [of d p] cl dir
        by (subst mkdir_parents.simps) (simp add: os_mkdir_def)
    qed
  qed
qed

section \<open>Loops and effects\<close>

lemma for_each_effects:
  assumes "\<And>s x. x \<in> set xs \<Longrightarrow> I s \<Longrightarrow>
             body s x = Inr (apply_effect (eff x) s) \<and> I (apply_effect (eff x) s)"
    and "I st"
  shows "for_each body st xs = Inr (apply_effects eff st xs) \<and> I (apply_effects eff st xs)"
  using assms
proof (induction xs arbitrary: st)
  case Nil
  then show ?case by (simp add: apply_effects_def)
next
  case (Cons x xs)
  have step: "body st x = Inr (apply_effect (eff x) st)" "I (apply_effect (eff x) st)"
    using Cons.prems(1) [of x st] Cons.prems(2) by simp_all
  have "for_each body (apply_effect (eff x) st) xs =
          Inr (apply_effects eff (apply_effect (eff x) st) xs) \<and>
        I (apply_effects eff (apply_effect (eff x) st) xs)"
    using Cons.prems(1) step(2) by (intro Cons.IH) auto
  then show ?case
    using step(1) by (simp add: apply_effects_def)
qed

lemma apply_effects_Cons:
  "apply_effects eff st (x # xs) = apply_effects eff (apply_effect (eff x) st) xs"
  by (simp add: apply_effects_def)

lemma apply_effects_Nil: "apply_effects eff st [] = st"
  by (simp add: apply_effects_def)

lemma disk_apply_effect:
  "disk (apply_effect e st) q =
     (case writes e of
        Some (p, b) \<Rightarrow> if p = q then Some (File b)
                        else (case makes e of None \<Rightarrow> disk st q | Some t \<Rightarrow> make_dirs (disk st) t q)
      | None \<Rightarrow> (case makes e of None \<Rightarrow> disk st q | Some t \<Rightarrow> make_dirs (disk st) t q))"
  by (simp add: apply_effect_def Let_def split: option.splits)

lemma logged_apply_effect: "logged (apply_effect e st) = logged st @ says e"
  by (simp add: apply_effect_def Let_def)

lemma opened_apply_effect: "opened (apply_effect e st) = opened st @ leaves_open e"
  by (simp add: apply_effect_def Let_def)

lemma disk_apply_effects:
  "disk (apply_effects eff st xs) q =
     (case last_write eff xs q of
        Some b \<Rightarrow> Some (File b)
      | None \<Rightarrow> (case disk st q of
                   Some n \<Rightarrow> Some n
                 | None \<Rightarrow> if made_by eff xs q then Some Dir else None))"
proof (induction xs arbitrary: st)
  case Nil
  then show ?case by (simp add: apply_effects_Nil made_by_def split: option.splits)
next
  case (Cons x xs)
  show ?case
    unfolding apply_effects_Cons Cons.IH
    by (auto simp: disk_apply_effect made_by_def make_dirs_def split: option.splits)
qed

lemma logged_apply_effects:
  "logged (apply_effects eff st xs) = logged st @ concat (map (\<lambda>x. says (eff x)) xs)"
  by (induction xs arbitrary: st) (simp_all add: apply_effects_Nil apply_effects_Cons logged_apply_effect)

lemma opened_apply_effects:
  "opened (apply_effects eff st xs) = opened st @ concat (map (\<lambda>x. leaves_open (eff x)) xs)"
  by (induction xs arbitrary: st) (simp_all add: apply_effects_Nil apply_effects_Cons opened_apply_effect)

lemma last_write_None:
  "last_write eff xs q = None \<longleftrightarrow> (\<forall>x \<in> set xs. \<forall>b. writes (eff x) \<noteq> Some (q, b))"
  by (induction xs) (auto split: option.splits)

lemma last_write_Some:
  "last_write eff xs q = Some b \<Longrightarrow> \<exists>x \<in> set xs. writes (eff x) = Some (q, b)"
  by (induction xs) (auto split: option.splits if_splits)

lemma last_write_unique:
  assumes "x \<in> set xs" "writes (eff x) = Some (q, b)"
    and "\<And>y b'. y \<in> set xs \<Longrightarrow> writes (eff y) = Some (q, b') \<Longrightarrow> y = x"
  shows "last_write eff xs q = Some b"
proof (cases "last_write eff xs q")
  case None
  then show ?thesis using assms(1,2) by (simp add: last_write_None)
next
  case (Some b')
  then obtain y where "y \<in> set xs" "writes (eff y) = Some (q, b')"
    using last_write_Some by blast
  then show ?thesis using assms Some by fastforce
qed

section \<open>Snapshots\<close>

lemma tree_ok_closed: "tree_ok src \<Longrightarrow> closed (map_of src)"
  unfolding tree_ok_def closed_def list_all_iff
  by (auto dest!: map_of_SomeD)

lemma tree_ok_prefix:
  "tree_ok src \<Longrightarrow> map_of src p \<noteq> None \<Longrightarrow> prefix q p \<Longrightarrow> q \<noteq> p \<Longrightarrow>
     map_of src q = Some Dir"
  using closed_prefix tree_ok_closed by blast

lemma glob_all_iff:
  "f \<in> set (glob_all src inp) \<longleftrightarrow>
     path_is_dir (map_of src) inp \<and> strict_prefix inp f \<and> map_of src f \<noteq> None"
  by (auto simp: glob_all_def map_of_eq_None_iff)

lemma glob_all_distinct: "tree_ok src \<Longrightarrow> distinct (glob_all src inp)"
  by (simp add: glob_all_def tree_ok_def)

lemma strict_prefix_appendE:
  assumes "strict_prefix inp f"
  obtains rel where "f = inp @ rel" "rel \<noteq> []"
  using assms by (auto simp: strict_prefix_def prefix_def)

lemma relative_to_append [simp]: "relative_to (inp @ rel) inp = Inr rel"
  by (simp add: relative_to_def)

lemma mirror_append [simp]: "mirror inp out (inp @ rel) = out @ rel"
  by (simp add: mirror_def)

section \<open>The output side along a run\<close>

lemma prefix_append_cases:
  assumes "prefix q (out @ rel)"
  obtains "prefix q out" | rel' where "q = out @ rel'" "rel' \<noteq> []" "prefix rel' rel"
proof -
  from assms consider "prefix q out" | us where "q = out @ us" "prefix us rel"
    by (auto simp: prefix_append)
  then show thesis
  proof cases
    case 1
    then show ?thesis by (rule that(1))
  next
    case 2
    then show ?thesis
      using that by (cases "us = []") auto
  qed
qed

lemma parent_neq: "p \<noteq> [] \<Longrightarrow> parent p \<noteq> p"
  by (cases p rule: rev_cases) simp_all

lemma output_ok_kinds:
  assumes "output_ok src inp out d" "rel \<noteq> []"
  shows "case d (out @ rel) of None \<Rightarrow> True
      | Some Dir \<Rightarrow> path_is_dir (map_of src) (inp @ rel)
      | Some (File c) \<Rightarrow> path_is_file (map_of src) (inp @ rel)"
  using assms by (simp add: output_ok_def)

lemma output_ok_file:
  assumes "output_ok src inp out d" "rel \<noteq> []" "d (out @ rel) = Some (File c)"
  shows "path_is_file (map_of src) (inp @ rel)"
  using output_ok_kinds [OF assms(1,2)] assms(3) by simp

lemma output_ok_dir:
  assumes "output_ok src inp out d" "rel \<noteq> []" "d (out @ rel) = Some Dir"
  shows "path_is_dir (map_of src) (inp @ rel)"
  using output_ok_kinds [OF assms(1,2)] assms(3) by simp

lemma no_file_on_way:
  assumes "tree_ok src" "output_ok src inp out d"
    and "rel = [] \<or> map_of src (inp @ rel) = Some Dir"
    and "prefix q (out @ rel)"
  shows "d q \<noteq> Some (File c)"
proof
  assume isfile: "d q = Some (File c)"
  from assms(4) show False
  proof (cases rule: prefix_append_cases)
    case 1
    then show ?thesis using assms(2) isfile by (auto simp: output_ok_def)
  next
    case (2 rel')
    then have "path_is_file (map_of src) (inp @ rel')"
      using output_ok_file [OF assms(2), of rel' c] isfile by simp
    moreover have "map_of src (inp @ rel') = Some Dir"
    proof (cases "rel' = rel")
      case True
      then show ?thesis using assms(3) 2 by auto
    next
      case False
      then show ?thesis
        using tree_ok_prefix [OF assms(1), of "inp @ rel" "inp @ rel'"] assms(3) 2 by auto
    qed
    ultimately show ?thesis by (simp add: path_is_file_def)
  qed
qed

lemma make_dirs_keeps: "d q \<noteq> None \<Longrightarrow> make_dirs d t q = d q"
  by (simp add: make_dirs_def)

lemma make_dirs_cases:
  "make_dirs d t q = d q \<or> (d q = None \<and> prefix q t \<and> make_dirs d t q = Some Dir)"
  by (simp add: make_dirs_def)

lemma output_ok_make_dirs:
  assumes "tree_ok src" "output_ok src inp out d"
    and "rel = [] \<or> map_of src (inp @ rel) = Some Dir"
  shows "output_ok src inp out (make_dirs d (out @ rel))"
proof -
  let ?t = "out @ rel" and ?d = "make_dirs d (out @ rel)"
  have ok: "fs_ok d" using assms(2) by (simp add: output_ok_def)
  then have root: "d [] = Some Dir" and cl: "closed d"
    by (auto simp: fs_ok_def)
  have nofile: "\<And>q c. prefix q ?t \<Longrightarrow> d q \<noteq> Some (File c)"
    using no_file_on_way [OF assms] .
  have "closed ?d"
    unfolding closed_def
  proof (intro allI impI)
    fix q assume q: "?d q \<noteq> None"
    show "?d (parent q) = Some Dir"
    proof (cases "d q")
      case (Some n)
      then have "d (parent q) = Some Dir" using cl by (auto simp: closed_def)
      then show ?thesis by (simp add: make_dirs_def)
    next
      case None
      with q have pre: "prefix q ?t" by (auto simp: make_dirs_def split: if_splits)
      then have "prefix (parent q) ?t"
        using prefix_parent prefix_order.trans by blast
      then show ?thesis
        using nofile [of "parent q"]
        by (cases "d (parent q)") (auto simp: make_dirs_def intro: node.exhaust)
    qed
  qed
  moreover have "?d [] = Some Dir"
    using root by (simp add: make_dirs_def)
  moreover have "?d q \<noteq> Some (File c)" if "prefix q out" for q c
    using that assms(2) by (auto simp: make_dirs_def output_ok_def)
  moreover have "case ?d (out @ r) of None \<Rightarrow> True
      | Some Dir \<Rightarrow> path_is_dir (map_of src) (inp @ r)
      | Some (File c) \<Rightarrow> path_is_file (map_of src) (inp @ r)" if "r \<noteq> []" for r
  proof (cases "d (out @ r) = None \<and> prefix (out @ r) ?t")
    case True
    then have pre: "prefix r rel" by simp
    with that have "rel \<noteq> []" by auto
    then have dir: "map_of src (inp @ rel) = Some Dir" using assms(3) by simp
    have "map_of src (inp @ r) = Some Dir"
      using tree_ok_prefix [OF assms(1), of "inp @ rel" "inp @ r"] dir pre
      by (cases "r = rel") auto
    then show ?thesis using True by (simp add: make_dirs_def path_is_dir_def)
  next
    case False
    then have "?d (out @ r) = d (out @ r)" by (auto simp: make_dirs_def)
    then show ?thesis using assms(2) that by (simp add: output_ok_def)
  qed
  ultimately show ?thesis
    by (simp add: output_ok_def fs_ok_def)
qed

lemma mkdir_parents_mirrored:
  assumes "tree_ok src" "output_ok src inp out d"
    and "rel = [] \<or> map_of src (inp @ rel) = Some Dir"
  shows "mkdir_parents d (out @ rel) = Inr (make_dirs d (out @ rel))"
  using assms no_file_on_way [OF assms]
  by (intro mkdir_parents_make_dirs) (auto simp: output_ok_def)

lemma write_file_mirrored:
  assumes "tree_ok src" "output_ok src inp out d"
    and "path_is_file (map_of src) (inp @ rel)" "rel \<noteq> []"
    and "d (out @ parent rel) = Some Dir"
  shows "write_file d (out @ rel) b = Inr (d(out @ rel \<mapsto> File b))"
    and "output_ok src inp out (d(out @ rel \<mapsto> File b))"
proof -
  let ?p = "out @ rel"
  have par: "parent ?p = out @ parent rel"
    using assms(4) by (rule parent_append)
  have kinds: "\<And>r. r \<noteq> [] \<Longrightarrow> (case d (out @ r) of None \<Rightarrow> True
      | Some Dir \<Rightarrow> path_is_dir (map_of src) (inp @ r)
      | Some (File c) \<Rightarrow> path_is_file (map_of src) (inp @ r))"
    using output_ok_kinds [OF assms(2)] .
  have notdir: "d ?p \<noteq> Some Dir"
    using kinds [OF assms(4)] assms(3) by (auto simp: path_is_dir_def path_is_file_def)
  then show "write_file d ?p b = Inr (d(?p \<mapsto> File b))"
    using assms(5) par by (auto simp: write_file_def split: option.splits node.splits)
  have cl: "closed d" and root: "d [] = Some Dir"
    using assms(2) by (auto simp: output_ok_def fs_ok_def)
  have nochild: "parent q \<noteq> ?p" if "d q \<noteq> None" "q \<noteq> ?p" for q
  proof
    assume "parent q = ?p"
    then have "d ?p = Some Dir" using cl that(1) by (auto simp: closed_def)
    then show False using notdir by simp
  qed
  have "closed (d(?p \<mapsto> File b))"
    unfolding closed_def
  proof (intro allI impI)
    fix q assume q: "(d(?p \<mapsto> File b)) q \<noteq> None"
    show "(d(?p \<mapsto> File b)) (parent q) = Some Dir"
    proof (cases "q = ?p")
      case True
      moreover have "parent ?p \<noteq> ?p"
        using assms(4) by (intro parent_neq) simp
      ultimately show ?thesis using assms(5) par by simp
    next
      case False
      with q have ex: "d q \<noteq> None" by simp
      then have "d (parent q) = Some Dir" using cl by (auto simp: closed_def)
      then show ?thesis using nochild [OF ex False] by simp
    qed
  qed
  moreover have "(d(?p \<mapsto> File b)) [] = Some Dir"
    using root assms(4) by simp
  moreover have "(d(?p \<mapsto> File b)) q \<noteq> Some (File c)" if "prefix q out" for q c
  proof -
    have "q \<noteq> ?p" using that assms(4) by (auto simp: prefix_def)
    then show ?thesis using that assms(2) by (auto simp: output_ok_def)
  qed
  moreover have "case (d(?p \<mapsto> File b)) (out @ r) of None \<Rightarrow> True
      | Some Dir \<Rightarrow> path_is_dir (map_of src) (inp @ r)
      | Some (File c) \<Rightarrow> path_is_file (map_of src) (inp @ r)" if "r \<noteq> []" for r
    using kinds [OF that] assms(3) by (cases "r = rel") auto
  ultimately show "output_ok src inp out (d(?p \<mapsto> File b))"
    by (simp add: output_ok_def fs_ok_def)
qed

section \<open>The converter's loop body\<close>

lemma glob_entry:
  assumes "f \<in> set (glob_all src inp)"
  obtains rel where "f = inp @ rel" "rel \<noteq> []" "map_of src (inp @ rel) \<noteq> None"
    "map_of src inp = Some Dir"
proof -
  from assms have a: "path_is_dir (map_of src) inp" "strict_prefix inp f" "map_of src f \<noteq> None"
    by (simp_all add: glob_all_iff)
  from a(2) obtain rel where "f = inp @ rel" "rel \<noteq> []"
    by (rule strict_prefix_appendE)
  then show thesis
    using a that by (simp add: path_is_dir_def)
qed

lemma parent_dir_in_tree:
  assumes "tree_ok src" "map_of src (inp @ rel) \<noteq> None" "rel \<noteq> []"
  shows "map_of src (inp @ parent rel) = Some Dir"
proof -
  have "prefix (inp @ parent rel) (inp @ rel)" "inp @ parent rel \<noteq> inp @ rel"
    using assms(3) prefix_parent [of rel] parent_neq [of rel] by simp_all
  then show ?thesis
    using tree_ok_prefix [OF assms(1,2)] by blast
qed

lemma state_disk_update:
  "st\<lparr>disk := d\<rparr> = \<lparr>disk = d, logged = logged st, opened = opened st\<rparr>"
  by (cases st) simp

lemma convert_entry_effect:
  assumes "tree_ok src" "output_ok src inp out (disk st)" "f \<in> set (glob_all src inp)"
  shows "convert_entry cdc src inp out st f =
           Inr (apply_effect (convert_effect cdc src inp out f) st) \<and>
         output_ok src inp out (disk (apply_effect (convert_effect cdc src inp out f) st))"
proof -
  from assms(3) obtain rel where f: "f = inp @ rel" and rel: "rel \<noteq> []"
    and ex: "map_of src (inp @ rel) \<noteq> None" and root: "map_of src inp = Some Dir"
    by (rule glob_entry)
  let ?d = "disk st"
  show ?thesis
  proof (cases "map_of src (inp @ rel)")
    case None
    then show ?thesis using ex by simp
  next
    case (Some n)
    show ?thesis
    proof (cases n)
      case Dir
      then have dir: "map_of src (inp @ rel) = Some Dir" using Some by simp
      have mk: "mkdir_parents ?d (out @ rel) = Inr (make_dirs ?d (out @ rel))"
        using mkdir_parents_mirrored [OF assms(1,2), of rel] dir by simp
      have ok: "output_ok src inp out (make_dirs ?d (out @ rel))"
        using output_ok_make_dirs [OF assms(1,2), of rel] dir by simp
      show ?thesis
        using mk ok dir
        by (simp add: f convert_entry_def convert_effect_def path_is_dir_def apply_effect_def
            state_disk_update)
    next
      case (File c)
      then have fl: "map_of src (inp @ rel) = Some (File c)" using Some by simp
      then have notdir: "\<not> path_is_dir (map_of src) (inp @ rel)"
        by (simp add: path_is_dir_def)
      show ?thesis
      proof (cases "jpeg_suffix (inp @ rel)")
        case False
        then show ?thesis
          using notdir assms(2)
          by (cases st) (simp add: f convert_entry_def convert_effect_def apply_effect_def emit_def)
      next
        case True
        let ?t = "out @ rel" and ?d1 = "make_dirs ?d (out @ parent rel)"
        have pdir: "parent rel = [] \<or> map_of src (inp @ parent rel) = Some Dir"
          using parent_dir_in_tree [OF assms(1) ex rel] by simp
        have par: "parent ?t = out @ parent rel"
          using rel by (rule parent_append)
        have mk: "mkdir_parents ?d (parent ?t) = Inr ?d1"
          using mkdir_parents_mirrored [OF assms(1,2) pdir] par by simp
        have ok1: "output_ok src inp out ?d1"
          using output_ok_make_dirs [OF assms(1,2) pdir] .
        have "\<And>c. ?d (out @ parent rel) \<noteq> Some (File c)"
          using no_file_on_way [OF assms(1,2) pdir, of "out @ parent rel"] by simp
        then have pd: "?d1 (out @ parent rel) = Some Dir"
          by (intro make_dirs_target) simp
        have isf: "path_is_file (map_of src) (inp @ rel)"
          using fl by (simp add: path_is_file_def)
        have wr: "write_file ?d1 ?t b = Inr (?d1(?t \<mapsto> File b))"
          and ok2: "output_ok src inp out (?d1(?t \<mapsto> File b))" for b
          using write_file_mirrored [OF assms(1) ok1 isf rel pd] by simp_all
        show ?thesis
        proof (cases "convert_result cdc src (inp @ rel)")
          case (Inl e)
          then have op: "Image_open cdc (map_of src) (inp @ rel) = Inl e"
            by (simp add: convert_result_def split: sum.splits)
          show ?thesis
            using notdir True mk par ok1 op Inl
            by (cases st)
              (simp add: f convert_entry_def convert_effect_def apply_effect_def
                convert_file_def convert_except_def except_records_def emit_def)
        next
          case (Inr r)
          obtain img res where r: "r = (img, res)" by (cases r)
          from Inr r have op: "Image_open cdc (map_of src) (inp @ rel) = Inr img"
            and enc: "encode cdc img convert_params = res"
            by (auto simp: convert_result_def split: sum.splits)
          show ?thesis
          proof (cases res)
            case (Inl e)
            then show ?thesis
              using notdir True mk par ok1 op enc Inr r
              by (cases st)
                (simp add: f convert_entry_def convert_effect_def apply_effect_def
                  convert_file_def convert_except_def except_records_def emit_def
                  Image_save_def)
          next
            case (Inr b)
            then show ?thesis
              using notdir True mk par ok2 [of b] wr [of b] op enc \<open>convert_result cdc src (inp @ rel) = Inr r\<close> r
              by (cases st)
                (simp add: f convert_entry_def convert_effect_def apply_effect_def
                  convert_file_def emit_def Image_save_def Let_def)
          qed
        qed
      qed
    qed
  qed
qed

lemma process_jpeg_files_effects:
  assumes "tree_ok src" "output_ok src inp out (disk st)" "path_exists (map_of src) inp"
  shows "process_jpeg_files cdc src inp out st =
           Inr (apply_effects (convert_effect cdc src inp out)
                  (st\<lparr>disk := make_dirs (disk st) out\<rparr>) (glob_all src inp))"
    and "output_ok src inp out
           (disk (apply_effects (convert_effect cdc src inp out)
                  (st\<lparr>disk := make_dirs (disk st) out\<rparr>) (glob_all src inp)))"
proof -
  let ?st1 = "st\<lparr>disk := make_dirs (disk st) out\<rparr>"
  have mk: "mkdir_parents (disk st) out = Inr (make_dirs (disk st) out)"
    using mkdir_parents_mirrored [OF assms(1,2), of "[]"] by simp
  have ok1: "output_ok src inp out (disk ?st1)"
    using output_ok_make_dirs [OF assms(1,2), of "[]"] by simp
  have loop: "for_each (convert_entry cdc src inp out) ?st1 (glob_all src inp) =
          Inr (apply_effects (convert_effect cdc src inp out) ?st1 (glob_all src inp)) \<and>
        output_ok src inp out
          (disk (apply_effects (convert_effect cdc src inp out) ?st1 (glob_all src inp)))"
    by (rule for_each_effects [where I = "\<lambda>s. output_ok src inp out (disk s)"])
      (use convert_entry_effect [OF assms(1)] ok1 in blast)+
  show "process_jpeg_files cdc src inp out st =
           Inr (apply_effects (convert_effect cdc src inp out) ?st1 (glob_all src inp))"
    using assms(3) mk loop by (simp add: process_jpeg_files_def)
  show "output_ok src inp out
           (disk (apply_effects (convert_effect cdc src inp out) ?st1 (glob_all src inp)))"
    using loop by simp
qed

section \<open>The compressor's loop body\<close>

lemma close_image_snoc [simp]: "close_image p (ps @ [p]) = ps"
  by (simp add: close_image_def)

lemma compress_entry_effect:
  assumes "tree_ok src" "output_ok src inp out (disk st)" "f \<in> set (glob_all src inp)"
  shows "compress_entry cdc src inp out q st f =
           Inr (apply_effect (compress_effect cdc src inp out q f) st) \<and>
         output_ok src inp out (disk (apply_effect (compress_effect cdc src inp out q f) st))"
proof -
  from assms(3) obtain rel where f: "f = inp @ rel" and rel: "rel \<noteq> []"
    and ex: "map_of src (inp @ rel) \<noteq> None" and root: "map_of src inp = Some Dir"
    by (rule glob_entry)
  let ?d = "disk st"
  show ?thesis
  proof (cases "path_is_dir (map_of src) (inp @ rel)")
    case True
    then show ?thesis
      using assms(2)
      by (cases st) (simp add: f compress_entry_def compress_effect_def apply_effect_def emit_def)
  next
    case notdir: False
    then obtain c where fl: "map_of src (inp @ rel) = Some (File c)"
      using ex by (cases "map_of src (inp @ rel)") (auto simp: path_is_dir_def intro: node.exhaust)
    let ?t = "out @ rel" and ?d1 = "make_dirs ?d (out @ parent rel)"
    have pdir: "parent rel = [] \<or> map_of src (inp @ parent rel) = Some Dir"
      using parent_dir_in_tree [OF assms(1) ex rel] by simp
    have par: "parent ?t = out @ parent rel"
      using rel by (rule parent_append)
    have mk: "mkdir_parents ?d (parent ?t) = Inr ?d1"
      using mkdir_parents_mirrored [OF assms(1,2) pdir] par by simp
    have ok1: "output_ok src inp out ?d1"
      using output_ok_make_dirs [OF assms(1,2) pdir] .
    have "\<And>c. ?d (out @ parent rel) \<noteq> Some (File c)"
      using no_file_on_way [OF assms(1,2) pdir, of "out @ parent rel"] by simp
    then have pd: "?d1 (out @ parent rel) = Some Dir"
      by (intro make_dirs_target) simp
    have isf: "path_is_file (map_of src) (inp @ rel)"
      using fl by (simp add: path_is_file_def)
    have wr: "write_file ?d1 ?t b = Inr (?d1(?t \<mapsto> File b))"
      and ok2: "output_ok src inp out (?d1(?t \<mapsto> File b))" for b
      using write_file_mirrored [OF assms(1) ok1 isf rel pd] by simp_all
    have sz: "st_size (map_of src) (inp @ rel) = Inr (length c)"
      using fl by (simp add: st_size_def)
    have op: "Image_open cdc (map_of src) (inp @ rel) = identify cdc c"
      using fl by (simp add: Image_open_def)
    show ?thesis
    proof (cases "jpeg_suffix (inp @ rel)")
      case False
      then show ?thesis
        using notdir mk par ok1
        by (cases st) (simp add: f compress_entry_def compress_effect_def apply_effect_def emit_def)
    next
      case True
      show ?thesis
      proof (cases "identify cdc c")
        case (Inl e)
        then show ?thesis
          using notdir True mk par ok1 sz op
          by (cases st)
            (simp add: f compress_entry_def compress_effect_def apply_effect_def emit_def
              compress_file_def compress_says_def)
      next
        case (Inr img)
        show ?thesis
        proof (cases "encode cdc img (compress_params q)")
          case (Inl e)
          then show ?thesis
            using notdir True mk par ok1 sz op Inr
            by (cases st)
              (simp add: f compress_entry_def compress_effect_def apply_effect_def emit_def
                compress_file_def compress_says_def compress_with_body_def Image_save_def)
        next
          case enc: (Inr b)
          have sz2: "st_size (?d1(?t \<mapsto> File b)) ?t = Inr (length b)"
            by (simp add: st_size_def)
          show ?thesis
            using notdir True mk par ok2 [of b] wr [of b] sz sz2 op Inr enc
            by (cases st)
              (simp add: f compress_entry_def compress_effect_def apply_effect_def emit_def
                compress_file_def compress_says_def compress_with_body_def Image_save_def
                Let_def)
        qed
      qed
    qed
  qed
qed

lemma compress_jpeg_effects:
  assumes "tree_ok src" "output_ok src inp out (disk st)"
  shows "compress_jpeg cdc src inp out q st =
           Inr (apply_effects (compress_effect cdc src inp out q)
                  (st\<lparr>disk := make_dirs (disk st) out\<rparr>) (glob_all src inp))"
    and "output_ok src inp out
           (disk (apply_effects (compress_effect cdc src inp out q)
                  (st\<lparr>disk := make_dirs (disk st) out\<rparr>) (glob_all src inp)))"
proof -
  let ?st1 = "st\<lparr>disk := make_dirs (disk st) out\<rparr>"
  have mk: "mkdir_parents (disk st) out = Inr (make_dirs (disk st) out)"
    using mkdir_parents_mirrored [OF assms(1,2), of "[]"] by simp
  have ok1: "output_ok src inp out (disk ?st1)"
    using output_ok_make_dirs [OF assms(1,2), of "[]"] by simp
  have loop: "for_each (compress_entry cdc src inp out q) ?st1 (glob_all src inp) =
          Inr (apply_effects (compress_effect cdc src inp out q) ?st1 (glob_all src inp)) \<and>
        output_ok src inp out
          (disk (apply_effects (compress_effect cdc src inp out q) ?st1 (glob_all src inp)))"
    by (rule for_each_effects [where I = "\<lambda>s. output_ok src inp out (disk s)"])
      (use compress_entry_effect [OF assms(1)] ok1 in blast)+
  show "compress_jpeg cdc src inp out q st =
           Inr (apply_effects (compress_effect cdc src inp out q) ?st1 (glob_all src inp))"
    using mk loop by (simp add: compress_jpeg_def)
  show "output_ok src inp out
           (disk (apply_effects (compress_effect cdc src inp out q) ?st1 (glob_all src inp)))"
    using loop by simp
qed

section \<open>What a run leaves on the output side\<close>

lemma effects_dir_made:
  assumes "output_ok src inp out (disk (apply_effects eff st xs))"
    and "x \<in> set xs" "makes (eff x) = Some (out @ r)"
    and "r = [] \<or> map_of src (inp @ r) = Some Dir"
  shows "disk (apply_effects eff st xs) (out @ r) = Some Dir"
proof -
  let ?D = "disk (apply_effects eff st xs)"
  have "made_by eff xs (out @ r)"
    unfolding made_by_def using assms(2,3) by (intro bexI [of _ x]) simp_all
  then have ex: "?D (out @ r) \<noteq> None"
    by (simp add: disk_apply_effects split: option.splits)
  have "?D (out @ r) \<noteq> Some (File c)" for c
  proof (cases "r = []")
    case True
    then show ?thesis using assms(1) by (auto simp: output_ok_def)
  next
    case False
    then show ?thesis
      using output_ok_file [OF assms(1) False, of c] assms(4) by (auto simp: path_is_file_def)
  qed
  then show ?thesis
    using ex by (cases "?D (out @ r)") (auto intro: node.exhaust)
qed

lemma no_writes_keeps_files:
  assumes "\<And>x. x \<in> set xs \<Longrightarrow> writes (eff x) = None"
  shows "disk (apply_effects eff st xs) p = Some (File c) \<longleftrightarrow> disk st p = Some (File c)"
proof -
  have "last_write eff xs p = None"
    using assms by (simp add: last_write_None)
  then show ?thesis
    by (auto simp: disk_apply_effects split: option.splits)
qed

lemma make_dirs_file [simp]: "make_dirs d t p = Some (File c) \<longleftrightarrow> d p = Some (File c)"
  by (simp add: make_dirs_def)

lemma output_ok_root_only: "output_ok src inp out root_only"
  by (auto simp: output_ok_def fs_ok_def closed_def root_only_def)

lemma tree_ok_example_tree: "tree_ok example_tree"
  by (simp add: tree_ok_def example_tree_def parent_def)

lemma tree_ok_papers_tree: "tree_ok papers_tree"
  by (simp add: tree_ok_def papers_tree_def parent_def)

lemma tree_ok_documents_tree: "tree_ok documents_tree"
  by (simp add: tree_ok_def documents_tree_def parent_def)

lemma glob_file_cases:
  assumes "f \<in> set (glob_all src inp)" "\<not> path_is_dir (map_of src) f"
  shows "path_is_file (map_of src) f"
proof -
  from assms(1) have "map_of src f \<noteq> None" by (simp add: glob_all_iff)
  then show ?thesis
    using assms(2) by (cases "map_of src f") (auto simp: path_is_dir_def path_is_file_def split: node.splits)
qed

lemma file_not_dir: "path_is_file d p \<Longrightarrow> \<not> path_is_dir d p"
  by (auto simp: path_is_file_def path_is_dir_def)

section \<open>Paths a run does not touch\<close>

lemma effects_untouched:
  assumes "\<not> made_by eff xs p" "last_write eff xs p = None"
  shows "disk (apply_effects eff st xs) p = disk st p"
  using assms by (simp add: disk_apply_effects split: option.splits)

lemma added_apply_effects:
  "logged st0 = logged st \<Longrightarrow>
   added st0 (apply_effects eff st xs) = concat (map (\<lambda>x. says (eff x)) xs)"
  by (simp add: added_def logged_apply_effects)

lemma mirror_inj:
  assumes "strict_prefix inp x" "strict_prefix inp y" "mirror inp out x = mirror inp out y"
  shows "x = y"
proof -
  from assms(1) obtain rx where "x = inp @ rx" by (auto simp: strict_prefix_def prefix_def)
  moreover from assms(2) obtain ry where "y = inp @ ry" by (auto simp: strict_prefix_def prefix_def)
  ultimately show ?thesis using assms(3) by simp
qed

text \<open>The shape of the effects of both scripts: a file is written at the mirrored path
  of its entry, a directory is made at the mirrored path of a directory entry or at the
  parent of the mirrored path of a file entry.\<close>

lemma convert_effect_writes:
  assumes "writes (convert_effect cdc src inp out x) = Some (p, b)"
  shows "p = mirror inp out x \<and> \<not> path_is_dir (map_of src) x \<and> jpeg_suffix x"
  using assms
  by (auto simp: convert_effect_def Let_def split: if_splits sum.splits prod.splits)

lemma convert_effect_makes:
  assumes "makes (convert_effect cdc src inp out x) = Some t"
  shows "t = mirror inp out x \<and> path_is_dir (map_of src) x \<or>
         t = parent (mirror inp out x) \<and> \<not> path_is_dir (map_of src) x"
  using assms
  by (auto simp: convert_effect_def Let_def split: if_splits sum.splits prod.splits)

lemma compress_effect_writes:
  assumes "writes (compress_effect cdc src inp out q x) = Some (p, b)"
  shows "p = mirror inp out x \<and> \<not> path_is_dir (map_of src) x \<and> jpeg_suffix x"
  using assms
  by (auto simp: compress_effect_def Let_def split: if_splits prod.splits option.splits)

lemma compress_effect_makes:
  assumes "makes (compress_effect cdc src inp out q x) = Some t"
  shows "t = mirror inp out x \<and> path_is_dir (map_of src) x \<or>
         t = parent (mirror inp out x) \<and> \<not> path_is_dir (map_of src) x"
  using assms
  by (auto simp: compress_effect_def Let_def split: if_splits prod.splits)

lemma file_not_on_way:
  assumes "tree_ok src" "f \<in> set (glob_all src inp)" "path_is_file (map_of src) f"
    and "x \<in> set (glob_all src inp)"
    and "t = mirror inp out x \<and> path_is_dir (map_of src) x \<or>
         t = parent (mirror inp out x) \<and> \<not> path_is_dir (map_of src) x"
  shows "\<not> prefix (mirror inp out f) t"
proof
  assume pre: "prefix (mirror inp out f) t"
  from assms(2) obtain rf where f: "f = inp @ rf" "rf \<noteq> []"
    by (rule glob_entry)
  from assms(4) obtain rx where x: "x = inp @ rx" "rx \<noteq> []" "map_of src (inp @ rx) \<noteq> None"
    by (rule glob_entry)
  have notdir: "map_of src f \<noteq> Some Dir"
    using assms(3) by (auto simp: path_is_file_def)
  from assms(5) show False
  proof
    assume a: "t = mirror inp out x \<and> path_is_dir (map_of src) x"
    then have "prefix rf rx" using pre f x by simp
    then have "prefix f x" using f x by simp
    then have "map_of src f = Some Dir"
      using tree_ok_prefix [OF assms(1), of x f] x a by (cases "f = x") (auto simp: path_is_dir_def)
    then show False using notdir by simp
  next
    assume a: "t = parent (mirror inp out x) \<and> \<not> path_is_dir (map_of src) x"
    then have "t = out @ parent rx" using x parent_append [of rx out] by simp
    then have "prefix rf (parent rx)" using pre f by simp
    then have "prefix f (inp @ parent rx)" using f by simp
    moreover have "prefix (inp @ parent rx) x" "inp @ parent rx \<noteq> x"
      using x prefix_parent [of rx] parent_neq [of rx] by simp_all
    ultimately have "prefix f x" "f \<noteq> x"
      by (auto dest: prefix_order.antisym)
    then have "map_of src f = Some Dir"
      using tree_ok_prefix [OF assms(1), of x f] x by simp
    then show False using notdir by simp
  qed
qed

lemma unwritten_file_untouched:
  assumes "tree_ok src" "f \<in> set (glob_all src inp)" "path_is_file (map_of src) f"
    and W: "\<And>x p b. writes (eff x) = Some (p, b) \<Longrightarrow> p = mirror inp out x"
    and M: "\<And>x t. makes (eff x) = Some t \<Longrightarrow>
              t = mirror inp out x \<and> path_is_dir (map_of src) x \<or>
              t = parent (mirror inp out x) \<and> \<not> path_is_dir (map_of src) x"
    and "writes (eff f) = None"
  shows "disk (apply_effects eff (st\<lparr>disk := make_dirs (disk st) out\<rparr>) (glob_all src inp))
           (mirror inp out f) = disk st (mirror inp out f)"
proof -
  let ?q = "mirror inp out f" and ?xs = "glob_all src inp"
  from assms(2) obtain rf where f: "f = inp @ rf" "rf \<noteq> []"
    by (rule glob_entry)
  have "\<not> made_by eff ?xs ?q"
    unfolding made_by_def
  proof
    assume "\<exists>x \<in> set ?xs. case makes (eff x) of Some t \<Rightarrow> prefix ?q t | None \<Rightarrow> False"
    then obtain x t where x: "x \<in> set ?xs" "makes (eff x) = Some t" "prefix ?q t"
      by (auto split: option.splits)
    then show False
      using file_not_on_way [OF assms(1,2,3) x(1) M [OF x(2)]] by simp
  qed
  moreover have "last_write eff ?xs ?q = None"
    unfolding last_write_None
  proof (intro ballI allI notI)
    fix x b assume x: "x \<in> set ?xs" "writes (eff x) = Some (?q, b)"
    then have "mirror inp out x = ?q" using W by fastforce
    then have "x = f"
      using mirror_inj [of inp x f out] x(1) assms(2) by (simp add: glob_all_iff)
    then show False using x(2) assms(6) by simp
  qed
  ultimately have "disk (apply_effects eff (st\<lparr>disk := make_dirs (disk st) out\<rparr>) ?xs) ?q =
      make_dirs (disk st) out ?q"
    using effects_untouched by fastforce
  moreover have "\<not> prefix ?q out"
    using f by (simp add: prefix_def)
  ultimately show ?thesis by (simp add: make_dirs_def)
qed

lemma convert_says_subject:
  assumes "r \<in> set (says (convert_effect cdc src inp out x))" "subject (message r) = Some p"
  shows "p = x"
  using assms
  by (auto simp: convert_effect_def Let_def except_records_def
      split: if_splits sum.splits prod.splits)

lemma compress_says_subject:
  assumes "r \<in> set (says (compress_effect cdc src inp out q x))" "subject (message r) = Some p"
  shows "p = x"
  using assms
  by (auto simp: compress_effect_def compress_says_def Let_def
      split: if_splits sum.splits prod.splits option.splits)

lemma filter_concat_single:
  assumes "distinct xs" "f \<in> set xs"
    and "\<And>x. x \<in> set xs \<Longrightarrow> x \<noteq> f \<Longrightarrow> filter P (g x) = []"
  shows "filter P (concat (map g xs)) = filter P (g f)"
  using assms
proof (induction xs)
  case Nil
  then show ?case by simp
next
  case (Cons x xs)
  show ?case
  proof (cases "x = f")
    case True
    then have "f \<notin> set xs" using Cons.prems(1) by simp
    then have "filter P (concat (map g xs)) = []"
      using Cons.prems(3) by (induction xs) auto
    then show ?thesis using True by simp
  next
    case False
    then have "filter P (g x) = []" using Cons.prems(3) by simp
    moreover have "filter P (concat (map g xs)) = filter P (g f)"
      using Cons.prems False by (intro Cons.IH) auto
    ultimately show ?thesis by simp
  qed
qed

lemma records_about:
  assumes "distinct xs" "f \<in> set xs"
    and "\<And>x r p. r \<in> set (says (eff x)) \<Longrightarrow> subject (message r) = Some p \<Longrightarrow> p = x"
  shows "filter (\<lambda>r. subject (message r) = Some f) (concat (map (\<lambda>x. says (eff x)) xs)) =
         filter (\<lambda>r. subject (message r) = Some f) (says (eff f))"
proof (rule filter_concat_single [OF assms(1,2)])
  fix x assume "x \<in> set xs" "x \<noteq> f"
  then show "filter (\<lambda>r. subject (message r) = Some f) (says (eff x)) = []"
    using assms(3) [of _ x f] by (auto simp: filter_empty_conv)
qed

lemma glob_root_exists: "f \<in> set (glob_all src inp) \<Longrightarrow> path_exists (map_of src) inp"
  by (simp add: glob_all_iff path_is_dir_def path_exists_def)

section \<open>Counting records and outputs\<close>

lemma length_filter_concat:
  assumes "\<And>x. x \<in> set xs \<Longrightarrow> length (filter P (g x)) = (if Q x then 1 else 0)"
  shows "length (filter P (concat (map g xs))) = length (filter Q xs)"
  using assms by (induction xs) auto

lemma filter_others_absent: "b \<notin> set xs \<Longrightarrow> filter (\<lambda>x. x \<noteq> b) xs = xs"
  by (induction xs) auto

lemma length_filter_others:
  assumes "distinct xs" "b \<in> set xs"
  shows "Suc (length (filter (\<lambda>x. x \<noteq> b) xs)) = length xs"
  using assms by (induction xs) (auto simp: filter_others_absent)

lemma written_file_present:
  assumes "f \<in> set (glob_all src inp)" "writes (eff f) = Some (mirror inp out f, b)"
    and W: "\<And>x p b. writes (eff x) = Some (p, b) \<Longrightarrow> p = mirror inp out x"
  shows "disk (apply_effects eff st (glob_all src inp)) (mirror inp out f) = Some (File b)"
proof -
  have "last_write eff (glob_all src inp) (mirror inp out f) = Some b"
  proof (rule last_write_unique [where x = f])
    show "f \<in> set (glob_all src inp)" "writes (eff f) = Some (mirror inp out f, b)"
      using assms(1,2) .
  next
    fix y b' assume y: "y \<in> set (glob_all src inp)" "writes (eff y) = Some (mirror inp out f, b')"
    then have "mirror inp out y = mirror inp out f" using W by fastforce
    then show "y = f"
      using mirror_inj [of inp y f out] y(1) assms(1) by (simp add: glob_all_iff)
  qed
  then show ?thesis by (simp add: disk_apply_effects)
qed

lemma jpeg_files_iff:
  "f \<in> set (jpeg_files src inp) \<longleftrightarrow>
     f \<in> set (glob_all src inp) \<and> path_is_file (map_of src) f \<and> jpeg_suffix f"
  by (auto simp: jpeg_files_def)

lemma file_content:
  "path_is_file (map_of src) f \<Longrightarrow> map_of src f = Some (File (content src f))"
  by (auto simp: path_is_file_def content_def split: option.splits node.splits)

text \<open>What the converter does with an in-scope file, by the kind of its bytes.\<close>

lemma convert_effect_valid:
  assumes "path_is_file (map_of src) f" "jpeg_suffix f"
    and "valid_image cdc convert_params (content src f)"
  shows "\<exists>(img :: image) b. convert_effect cdc src inp out f =
           \<lparr>makes = Some (parent (mirror inp out f)), writes = Some (mirror inp out f, b),
            says = [Log INFO (DetectedFormat f (format img)) False,
                    Log INFO (SavedAsJpeg (mirror inp out f)) False],
            leaves_open = [f]\<rparr>"
  using assms file_content [OF assms(1)] file_not_dir [OF assms(1)]
  by (auto simp: convert_effect_def convert_result_def Image_open_def valid_image_def Let_def
      split: sum.splits)

lemma convert_effect_corrupted:
  assumes "path_is_file (map_of src) f" "jpeg_suffix f" "corrupted cdc (content src f)"
  shows "convert_effect cdc src inp out f =
           \<lparr>makes = Some (parent (mirror inp out f)), writes = None,
            says = [Log ERROR (NotRecognised f) False,
                    Log ERROR (Exc UnidentifiedImageError) True],
            leaves_open = []\<rparr>"
  using assms file_content [OF assms(1)] file_not_dir [OF assms(1)]
  by (simp add: convert_effect_def convert_result_def Image_open_def corrupted_def Let_def
      except_records_def)

lemma convert_effect_other:
  assumes "path_is_dir (map_of src) f \<or> \<not> jpeg_suffix f"
  shows "writes (convert_effect cdc src inp out f) = None"
    and "\<forall>r \<in> set (says (convert_effect cdc src inp out f)). level r = INFO \<and> \<not> is_saved (message r)"
  using assms by (auto simp: convert_effect_def Let_def)

text \<open>The same for the compressor.\<close>

lemma compress_effect_valid:
  assumes "path_is_file (map_of src) f" "jpeg_suffix f"
    and "valid_image cdc (compress_params q) (content src f)"
  shows "\<exists>b. compress_effect cdc src inp out q f =
           \<lparr>makes = Some (parent (mirror inp out f)), writes = Some (mirror inp out f, b),
            says = [Log INFO (Compressed f (mirror inp out f) (length (content src f))
                      (length b)) False],
            leaves_open = []\<rparr>"
  using assms file_content [OF assms(1)] file_not_dir [OF assms(1)]
  by (auto simp: compress_effect_def compress_says_def Image_open_def st_size_def
      valid_image_def Let_def split: sum.splits)

lemma compress_effect_corrupted:
  assumes "path_is_file (map_of src) f" "jpeg_suffix f" "corrupted cdc (content src f)"
  shows "compress_effect cdc src inp out q f =
           \<lparr>makes = Some (parent (mirror inp out f)), writes = None,
            says = [Log ERROR (ErrorProcessing f UnidentifiedImageError) True],
            leaves_open = []\<rparr>"
  using assms file_content [OF assms(1)] file_not_dir [OF assms(1)]
  by (simp add: compress_effect_def compress_says_def Image_open_def st_size_def
      corrupted_def Let_def)

lemma compress_effect_other:
  assumes "path_is_dir (map_of src) f \<or> \<not> jpeg_suffix f"
  shows "writes (compress_effect cdc src inp out q f) = None"
    and "\<forall>r \<in> set (says (compress_effect cdc src inp out q f)).
           level r \<noteq> ERROR \<and> \<not> is_saved (message r)"
  using assms by (auto simp: compress_effect_def Let_def)

lemma length_jpeg_files_others:
  assumes "tree_ok src" "bad \<in> set (jpeg_files src inp)"
  shows "Suc (length (filter (\<lambda>x. x \<in> set (jpeg_files src inp) \<and> x \<noteq> bad) (glob_all src inp))) =
         length (jpeg_files src inp)"
proof -
  have "filter (\<lambda>x. x \<in> set (jpeg_files src inp) \<and> x \<noteq> bad) (glob_all src inp) =
        filter (\<lambda>x. x \<noteq> bad) (jpeg_files src inp)"
    unfolding jpeg_files_def filter_filter
    by (rule filter_cong) auto
  moreover have "distinct (jpeg_files src inp)"
    using glob_all_distinct [OF assms(1)] by (simp add: jpeg_files_def)
  ultimately show ?thesis
    using length_filter_others [OF _ assms(2)] by simp
qed

lemma glob_entry_kinds:
  assumes "x \<in> set (glob_all src inp)"
  obtains "path_is_dir (map_of src) x \<or> \<not> jpeg_suffix x" "x \<notin> set (jpeg_files src inp)"
  | "path_is_file (map_of src) x" "jpeg_suffix x" "x \<in> set (jpeg_files src inp)"
  using assms glob_file_cases [OF assms]
  by (cases "path_is_dir (map_of src) x \<or> \<not> jpeg_suffix x")
    (auto simp: jpeg_files_iff dest: file_not_dir)



lemma jpeg_files_example_tree:
  "jpeg_files example_tree [''in''] =
     [[''in'', ''a'', ''photo1.jpg''], [''in'', ''a'', ''bad.jpg''], [''in'', ''b'', ''photo1.JPEG'']]"
  by (simp add: jpeg_files_def glob_all_def example_tree_def path_is_dir_def path_is_file_def
      jpeg_suffix_def path_suffix_def path_name_def rfind_def lower_def lower_char_def Let_def)

section \<open>The output root\<close>

lemma mkdir_parents_existing:
  "d p = Some Dir \<Longrightarrow> mkdir_parents d p = Inr d"
  by (subst mkdir_parents.simps) (simp add: os_mkdir_def path_is_dir_def)

lemma make_dirs_root_chain:
  assumes "output_ok src inp out d" "prefix p out"
  shows "make_dirs d out p = Some Dir"
proof -
  have "d p \<noteq> Some (File c)" for c
    using assms by (auto simp: output_ok_def)
  then show ?thesis
    using assms(2) by (cases "d p") (auto simp: make_dirs_def intro: node.exhaust)
qed

lemma root_chain_kept:
  assumes "output_ok src inp out (disk (apply_effects eff st xs))"
    and "disk st p = Some Dir" "prefix p out"
  shows "disk (apply_effects eff st xs) p = Some Dir"
proof -
  have "disk (apply_effects eff st xs) p \<noteq> Some (File c)" for c
    using assms(1,3) by (auto simp: output_ok_def)
  then have "last_write eff xs p = None"
    by (cases "last_write eff xs p") (auto simp: disk_apply_effects)
  then show ?thesis
    using assms(2) by (simp add: disk_apply_effects)
qed

lemma str_int_90: "str_int 90 = ''90''"
  by (simp add: str_int_def str_nat.simps)

section \<open>The directories of the output tree\<close>

lemmas run_defs =
  converter_main_def process_jpeg_files_def compress_jpeg_def compressor_main_def
  compressor_output_path_def convert_entry_def compress_entry_def convert_file_def
  compress_file_def compress_with_body_def convert_except_def convert_params_def
  compress_params_def Image_open_def Image_save_def write_file_def st_size_def
  mkdir_parents.simps mkdir_exist_ok_def os_mkdir_def parent_def glob_all_def
  path_exists_def path_is_dir_def path_is_file_def relative_to_def emit_def close_image_def
  jpeg_suffix_def path_suffix_def path_name_def rfind_def lower_def lower_char_def Let_def
  toy_codec_def toy_identify_def toy_encode_def start_def root_only_def

lemma made_dir_present:
  assumes "output_ok src inp out (disk (apply_effects eff st xs))"
    and "made_by eff xs (out @ r)"
    and "r = [] \<or> map_of src (inp @ r) = Some Dir"
  shows "disk (apply_effects eff st xs) (out @ r) = Some Dir"
proof -
  let ?D = "disk (apply_effects eff st xs)"
  have ex: "?D (out @ r) \<noteq> None"
    using assms(2) by (simp add: disk_apply_effects split: option.splits)
  have "?D (out @ r) \<noteq> Some (File c)" for c
  proof (cases "r = []")
    case True
    then show ?thesis using assms(1) by (auto simp: output_ok_def)
  next
    case False
    then show ?thesis
      using output_ok_file [OF assms(1) False, of c] assms(3) by (auto simp: path_is_file_def)
  qed
  then show ?thesis
    using ex by (cases "?D (out @ r)") (auto intro: node.exhaust)
qed

lemma dir_in_glob:
  assumes "tree_ok src" "path_is_dir (map_of src) (inp @ rel)" "rel \<noteq> []"
  shows "inp @ rel \<in> set (glob_all src inp)"
proof -
  have "map_of src inp = Some Dir"
    using tree_ok_prefix [OF assms(1), of "inp @ rel" inp] assms(2,3)
    by (simp add: path_is_dir_def)
  then show ?thesis
    using assms(2,3) by (simp add: glob_all_iff path_is_dir_def strict_prefix_def)
qed

lemma compress_made_by_iff:
  assumes "tree_ok src" "rel \<noteq> []"
  shows "made_by (compress_effect cdc src inp out q) (glob_all src inp) (out @ rel) \<longleftrightarrow>
         (\<exists>f \<in> set (glob_all src inp). path_is_file (map_of src) f \<and> strict_prefix (inp @ rel) f)"
proof
  assume "made_by (compress_effect cdc src inp out q) (glob_all src inp) (out @ rel)"
  then obtain x t where x: "x \<in> set (glob_all src inp)"
    "makes (compress_effect cdc src inp out q x) = Some t" "prefix (out @ rel) t"
    by (auto simp: made_by_def split: option.splits)
  from x(1) obtain rx where rx: "x = inp @ rx" "rx \<noteq> []"
    by (rule glob_entry)
  have nd: "\<not> path_is_dir (map_of src) x" and t: "t = parent (mirror inp out x)"
    using x(2) by (auto simp: compress_effect_def Let_def split: if_splits prod.splits)
  then have "t = out @ parent rx"
    using rx parent_append [of rx out] by simp
  then have "prefix rel (parent rx)" using x(3) by simp
  then have "strict_prefix rel rx"
    using prefix_parent [of rx] parent_neq [OF rx(2)]
    by (auto simp: strict_prefix_def dest: prefix_order.trans prefix_order.antisym)
  then have "strict_prefix (inp @ rel) x" using rx by (simp add: strict_prefix_def)
  then show "\<exists>f \<in> set (glob_all src inp). path_is_file (map_of src) f \<and> strict_prefix (inp @ rel) f"
    using x(1) glob_file_cases [OF x(1) nd] by blast
next
  assume "\<exists>f \<in> set (glob_all src inp). path_is_file (map_of src) f \<and> strict_prefix (inp @ rel) f"
  then obtain f where f: "f \<in> set (glob_all src inp)" "path_is_file (map_of src) f"
    "strict_prefix (inp @ rel) f"
    by blast
  from f(1) obtain rf where rf: "f = inp @ rf" "rf \<noteq> []"
    by (rule glob_entry)
  have "strict_prefix rel rf" using f(3) rf by (simp add: strict_prefix_def)
  then have "prefix rel (parent rf)"
    using prefix_parent_iff [of rel rf] by (auto simp: strict_prefix_def)
  moreover have "makes (compress_effect cdc src inp out q f) = Some (out @ parent rf)"
    using file_not_dir [OF f(2)] rf parent_append [of rf out]
    by (simp add: compress_effect_def Let_def split: prod.splits)
  ultimately show "made_by (compress_effect cdc src inp out q) (glob_all src inp) (out @ rel)"
    unfolding made_by_def using f(1) by (intro bexI [of _ f]) simp_all
qed

lemma tree_ok_file_root_tree: "tree_ok file_root_tree"
  by (simp add: tree_ok_def file_root_tree_def parent_def)

lemma glob_all_not_dir: "\<not> path_is_dir (map_of src) inp \<Longrightarrow> glob_all src inp = []"
  by (simp add: glob_all_def)

section \<open>Failures in the log\<close>

lemma convert_failure_logged:
  assumes "path_is_file (map_of src) f" "jpeg_suffix f" "convert_failure cdc src f = Some e"
  shows "Log ERROR (Exc e) True \<in> set (says (convert_effect cdc src inp out f))"
  using assms file_not_dir [OF assms(1)]
  by (auto simp: convert_failure_def convert_effect_def except_records_def Let_def
      split: sum.splits prod.splits)

lemma compress_failure_logged:
  assumes "path_is_file (map_of src) f" "jpeg_suffix f" "compress_failure cdc src q f = Some e"
  shows "Log ERROR (ErrorProcessing f e) True \<in> set (says (compress_effect cdc src inp out q f))"
  using assms file_not_dir [OF assms(1)]
  by (auto simp: compress_failure_def compress_effect_def compress_says_def Let_def
      split: sum.splits prod.splits if_splits)

lemma added_trans:
  assumes "logged st1 = logged st @ xs" "logged st2 = logged st1 @ ys"
  shows "added st st2 = xs @ ys"
  using assms by (simp add: added_def)

lemma logged_emit [simp]: "logged (emit lv m tb st) = logged st @ [Log lv m tb]"
  by (simp add: emit_def)

lemma disk_emit [simp]: "disk (emit lv m tb st) = disk st"
  by (simp add: emit_def)

section \<open>The counter\<close>

lemma set_first_seen [simp]: "set (first_seen xs) = set xs"
  by (induction xs) auto

lemma distinct_first_seen [simp]: "distinct (first_seen xs)"
  by (induction xs) (auto simp: distinct_removeAll)

lemma removeAll_append_single:
  "removeAll a (xs @ [x]) = (if x = a then removeAll a xs else removeAll a xs @ [x])"
  by simp

lemma first_seen_snoc:
  "first_seen (xs @ [x]) = (if x \<in> set xs then first_seen xs else first_seen xs @ [x])"
  by (induction xs) auto

lemma counter_add_map:
  assumes "distinct ks"
  shows "counter_add (map (\<lambda>k. (k, c k)) ks) x =
         (if x \<in> set ks then map (\<lambda>k. (k, if k = x then Suc (c k) else c k)) ks
          else map (\<lambda>k. (k, c k)) ks @ [(x, 1)])"
  using assms by (induction ks) auto

lemma Counter_snoc: "Counter (xs @ [x]) = counter_add (Counter xs) x"
  by (simp add: Counter_def)

lemma Counter_eq: "Counter xs = map (\<lambda>k. (k, count_list xs k)) (first_seen xs)"
proof (induction xs rule: rev_induct)
  case Nil
  then show ?case by (simp add: Counter_def)
next
  case (snoc x xs)
  show ?case
  proof (cases "x \<in> set xs")
    case True
    then show ?thesis
      using counter_add_map [of "first_seen xs" "count_list xs" x]
      by (simp add: Counter_snoc snoc.IH first_seen_snoc)
  next
    case False
    then have "count_list xs x = 0" by (simp add: count_list_0_iff)
    then show ?thesis
      using False counter_add_map [of "first_seen xs" "count_list xs" x]
      by (auto simp: Counter_snoc snoc.IH first_seen_snoc)
  qed
qed

lemma map_of_dict_append:
  "map_of (dict_append d k v) =
     (map_of d)(k \<mapsto> (case map_of d k of None \<Rightarrow> [v] | Some vs \<Rightarrow> vs @ [v]))"
  by (induction d) (auto simp: fun_eq_iff)

lemma filename_paths_snoc:
  "filename_paths (fs @ [f]) = dict_append (filename_paths fs) (stem f) f"
  by (simp add: filename_paths_def)

lemma map_of_filename_paths:
  "map_of (filename_paths files) nm =
     (if nm \<in> stem ` set files then Some (group_of files nm) else None)"
proof (induction files rule: rev_induct)
  case Nil
  then show ?case by (simp add: filename_paths_def)
next
  case (snoc f fs)
  have g: "group_of (fs @ [f]) nm =
      (if nm = stem f then group_of fs nm @ [f] else group_of fs nm)"
    by (auto simp: group_of_def)
  have e: "group_of fs nm = []" if "nm \<notin> stem ` set fs"
    unfolding group_of_def filter_empty_conv using that by blast
  show ?case
  proof (cases "nm = stem f")
    case True
    then show ?thesis
      unfolding filename_paths_snoc map_of_dict_append g
      using snoc.IH e by (cases "nm \<in> stem ` set fs") simp_all
  next
    case False
    then show ?thesis
      unfolding filename_paths_snoc map_of_dict_append g
      using snoc.IH by simp
  qed
qed

lemma count_stems: "count_list (map stem files) nm = length (group_of files nm)"
  by (induction files) (auto simp: group_of_def)

text \<open>\<open>most_common\<close> keeps the entries, orders them by falling count and leaves entries
  of equal count in their order.\<close>

lemma set_most_common [simp]: "set (most_common kcs) = set kcs"
  by (simp add: most_common_def)

lemma distinct_most_common [simp]: "distinct (most_common kcs) = distinct kcs"
  by (simp add: most_common_def)

lemma most_common_sorted: "sorted_wrt (\<lambda>a b. snd a \<ge> snd b) (most_common kcs)"
proof -
  have "sorted (map snd (sort_key snd (rev kcs)))"
    by (rule sorted_sort_key)
  then have "sorted_wrt (\<lambda>a b. snd a \<le> snd b) (sort_key snd (rev kcs))"
    by (simp add: sorted_map)
  then show ?thesis
    by (simp add: most_common_def sorted_wrt_rev)
qed

lemma most_common_stable:
  "filter (\<lambda>y. snd y = k) (most_common kcs) = filter (\<lambda>y. snd y = k) kcs"
proof -
  have "filter (\<lambda>y. snd y = k) (most_common kcs) =
        rev (filter (\<lambda>y. snd y = k) (sort_key snd (rev kcs)))"
    by (simp add: most_common_def rev_filter)
  also have "\<dots> = rev (filter (\<lambda>y. snd y = k) (rev kcs))"
    by (simp only: sort_key_stable)
  finally show ?thesis by (simp add: rev_filter)
qed

lemma table_rows_ok:
  assumes "\<And>nm c. (nm, c) \<in> set ds \<Longrightarrow> map_of paths nm = Some (g nm)"
  shows "table_rows paths ds = Inr (map (\<lambda>(nm, c). (nm, c, g nm)) ds)"
  using assms
proof (induction ds)
  case Nil
  then show ?case by simp
next
  case (Cons d ds)
  obtain nm c where d: "d = (nm, c)" by (cases d)
  have "map_of paths nm = Some (g nm)"
    using Cons.prems [of nm c] d by simp
  moreover have "table_rows paths ds = Inr (map (\<lambda>(nm, c). (nm, c, g nm)) ds)"
    using Cons.prems by (intro Cons.IH) auto
  ultimately show ?case by (simp add: d)
qed

lemma duplicates_eq:
  "duplicates files =
     filter (\<lambda>(nm, c). c > 1)
       (most_common (map (\<lambda>k. (k, length (group_of files k))) (first_seen (map stem files))))"
  by (simp add: duplicates_def filename_counter_def Counter_eq count_stems)

lemma duplicates_member:
  "(nm, c) \<in> set (duplicates files) \<longleftrightarrow>
     nm \<in> stem ` set files \<and> c = length (group_of files nm) \<and> c > 1"
  by (auto simp: duplicates_eq)

lemma table_rows_duplicates:
  "table_rows (filename_paths files) (duplicates files) =
     Inr (map (\<lambda>(nm, c). (nm, c, group_of files nm)) (duplicates files))"
  by (rule table_rows_ok) (simp add: duplicates_member map_of_filename_paths)

lemma counter_main_reported:
  "\<exists>rep. counter_main src inp = Inr rep \<and>
     (path_exists (map_of src) inp \<longrightarrow>
        reported rep = map (\<lambda>(nm, c). (nm, c, group_of (jpeg_files src inp) nm))
                         (duplicates (jpeg_files src inp)))"
  by (auto simp: counter_main_def Let_def table_rows_duplicates reported_def)

lemma duplicates_Nil [simp]: "duplicates [] = []"
  by (simp add: duplicates_def filename_counter_def Counter_def most_common_def)

lemma counter_main_total:
  "counter_main src inp =
     Inr (projr (counter_main src inp)) \<and>
   reported (projr (counter_main src inp)) =
     map (\<lambda>(nm, c). (nm, c, group_of (jpeg_files src inp) nm)) (duplicates (jpeg_files src inp))"
proof (cases "path_exists (map_of src) inp")
  case True
  then show ?thesis
    by (auto simp: counter_main_def Let_def table_rows_duplicates reported_def)
next
  case False
  then have "jpeg_files src inp = []"
    by (simp add: jpeg_files_def glob_all_def path_is_dir_def path_exists_def)
  then show ?thesis
    using False by (simp add: counter_main_def reported_def)
qed

lemma distinct_names_duplicates: "distinct (map fst (duplicates files))"
proof -
  let ?C = "map (\<lambda>k. (k, length (group_of files k))) (first_seen (map stem files))"
  have "distinct ?C"
    by (simp add: distinct_map inj_on_def)
  moreover have "inj_on fst (set ?C)"
    by (auto simp: inj_on_def)
  moreover have "set (duplicates files) \<subseteq> set ?C"
    by (auto simp: duplicates_eq)
  moreover have "distinct (duplicates files)"
    unfolding duplicates_eq using \<open>distinct ?C\<close> by simp
  ultimately show ?thesis
    unfolding distinct_map by (blast intro: inj_on_subset)
qed

lemma duplicates_sorted: "sorted_wrt (\<lambda>a b. snd a \<ge> snd b) (duplicates files)"
  unfolding duplicates_eq by (intro sorted_wrt_filter most_common_sorted)

lemma duplicates_ties:
  "map fst (filter (\<lambda>d. snd d = k) (duplicates files)) =
     filter (\<lambda>nm. length (group_of files nm) = k \<and> k > 1) (first_seen (map stem files))"
proof -
  let ?g = "\<lambda>nm. length (group_of files nm)"
  let ?C = "map (\<lambda>nm. (nm, ?g nm)) (first_seen (map stem files))"
  have "filter (\<lambda>d. snd d = k) (duplicates files) =
        filter (\<lambda>(nm, c). c > 1) (filter (\<lambda>d. snd d = k) (most_common ?C))"
    unfolding duplicates_eq by (simp add: conj_commute)
  also have "\<dots> = filter (\<lambda>(nm, c). c > 1) (filter (\<lambda>d. snd d = k) ?C)"
    by (simp only: most_common_stable)
  finally have "map fst (filter (\<lambda>d. snd d = k) (duplicates files)) =
      filter (\<lambda>nm. ?g nm = k \<and> ?g nm > 1) (first_seen (map stem files))"
    by (simp add: filter_map comp_def)
  also have "\<dots> = filter (\<lambda>nm. ?g nm = k \<and> k > 1) (first_seen (map stem files))"
    by (rule filter_cong) auto
  finally show ?thesis .
qed

section \<open>The scope test\<close>

lemma lower_char_dot [simp]: "lower_char (CHR ''.'') = CHR ''.''"
  by (simp add: lower_char_def)

lemma lower_char_eq_dot:
  assumes "lower_char c = CHR ''.''"
  shows "c = CHR ''.''"
proof (cases "map_of (zip ''ABCDEFGHIJKLMNOPQRSTUVWXYZ'' ''abcdefghijklmnopqrstuvwxyz'') c")
  case None
  then show ?thesis using assms by (simp add: lower_char_def)
next
  case (Some d)
  then have "d \<in> set ''abcdefghijklmnopqrstuvwxyz''"
    by (meson map_of_SomeD set_zip_rightD)
  moreover have "d = CHR ''.''"
    using assms Some by (simp add: lower_char_def)
  ultimately show ?thesis by simp
qed

lemma lower_char_not_dot: "lower_char c \<noteq> CHR ''.'' \<Longrightarrow> c \<noteq> CHR ''.''"
  by auto

lemma length_lower [simp]: "length (lower s) = length s"
  by (simp add: lower_def)

lemma takeWhile_stop:
  "(\<And>x. x \<in> set xs \<Longrightarrow> P x) \<Longrightarrow> \<not> P y \<Longrightarrow> takeWhile P (xs @ y # ys) = xs"
  by (induction xs) auto

lemma rfind_last_dot:
  assumes "CHR ''.'' \<notin> set t"
  shows "rfind (base @ CHR ''.'' # t) (CHR ''.'') = int (length base)"
proof -
  have "takeWhile (\<lambda>x. x \<noteq> CHR ''.'') (rev t @ CHR ''.'' # rev base) = rev t"
    using assms by (intro takeWhile_stop) auto
  then show ?thesis
    by (simp add: rfind_def)
qed

lemma suffix_of_dotted:
  assumes "path_name p = base @ CHR ''.'' # t" "base \<noteq> []" "t \<noteq> []" "CHR ''.'' \<notin> set t"
  shows "path_suffix p = CHR ''.'' # t"
  using assms rfind_last_dot [OF assms(4), of base]
  by (simp add: path_suffix_def Let_def)

lemma ends_with_ci_suffix:
  assumes "ends_with_ci (path_name p) e" "e = CHR ''.'' # e'" "e' \<noteq> []" "CHR ''.'' \<notin> set e'"
  shows "lower (path_suffix p) = e"
proof -
  let ?nm = "path_name p"
  let ?base = "take (length ?nm - length e) ?nm" and ?t = "drop (length ?nm - length e) ?nm"
  have len: "length e < length ?nm" and low: "lower ?t = e"
    using assms(1) by (simp_all add: ends_with_ci_def)
  have "length ?t = length e"
    using len by simp
  then obtain c t' where t: "?t = c # t'"
    using assms(2) by (cases ?t) auto
  have "lower_char c = CHR ''.''" and low': "map lower_char t' = e'"
    using low t assms(2) by (simp_all add: lower_def)
  then have c: "c = CHR ''.''"
    by (simp add: lower_char_eq_dot)
  have nodot: "CHR ''.'' \<notin> set t'"
  proof
    assume "CHR ''.'' \<in> set t'"
    then have "lower_char (CHR ''.'') \<in> set (map lower_char t')" by (simp del: lower_char_dot)
    then show False using low' assms(4) by simp
  qed
  have "t' \<noteq> []" using low' assms(3) by auto
  moreover have "?base \<noteq> []"
  proof -
    have "length ?base = length ?nm - length e" by simp
    then have "0 < length ?base" using len by simp
    then show ?thesis by blast
  qed
  moreover have "?nm = ?base @ CHR ''.'' # t'"
    using t c by (metis append_take_drop_id)
  ultimately have "path_suffix p = CHR ''.'' # t'"
    using nodot by (intro suffix_of_dotted)
  then show ?thesis
    using low t c by simp
qed

lemma jpeg_suffix_iff: "jpeg_suffix p \<longleftrightarrow> has_jpeg_extension (path_name p)"
proof
  assume j: "jpeg_suffix p"
  let ?nm = "path_name p" and ?i = "rfind (path_name p) (CHR ''.'')"
  have ne: "path_suffix p \<noteq> []"
    using j by (auto simp: jpeg_suffix_def lower_def)
  then have i: "0 < ?i" "?i < int (length ?nm) - 1" and s: "path_suffix p = drop (nat ?i) ?nm"
    by (auto simp: path_suffix_def Let_def split: if_splits)
  have "ends_with_ci ?nm e" if e: "lower (path_suffix p) = e" for e
  proof -
    have "length e = length ?nm - nat ?i"
      using e s by (metis length_drop length_lower)
    then have "length e < length ?nm" "length ?nm - length e = nat ?i"
      using i by linarith+
    then show ?thesis
      using e s by (simp add: ends_with_ci_def)
  qed
  then show "has_jpeg_extension ?nm"
    using j by (auto simp: jpeg_suffix_def has_jpeg_extension_def)
next
  assume "has_jpeg_extension (path_name p)"
  then consider "ends_with_ci (path_name p) ''.jpg''" | "ends_with_ci (path_name p) ''.jpeg''"
    by (auto simp: has_jpeg_extension_def)
  then show "jpeg_suffix p"
  proof cases
    case 1
    then have "lower (path_suffix p) = ''.jpg''"
      using ends_with_ci_suffix [of p "''.jpg''" "''jpg''"] by simp
    then show ?thesis by (simp add: jpeg_suffix_def)
  next
    case 2
    then have "lower (path_suffix p) = ''.jpeg''"
      using ends_with_ci_suffix [of p "''.jpeg''" "''jpeg''"] by simp
    then show ?thesis by (simp add: jpeg_suffix_def)
  qed
qed

section \<open>Records about one file\<close>

lemma record_about_iff:
  assumes "f \<in> set xs"
    and "\<And>x r p. r \<in> set (says (eff x)) \<Longrightarrow> subject (message r) = Some p \<Longrightarrow> p = x"
  shows "(\<exists>r \<in> set (concat (map (\<lambda>x. says (eff x)) xs)). P r \<and> subject (message r) = Some f) \<longleftrightarrow>
         (\<exists>r \<in> set (says (eff f)). P r \<and> subject (message r) = Some f)"
proof
  assume "\<exists>r \<in> set (concat (map (\<lambda>x. says (eff x)) xs)). P r \<and> subject (message r) = Some f"
  then obtain r x where r: "x \<in> set xs" "r \<in> set (says (eff x))" "P r"
    "subject (message r) = Some f"
    by auto
  then have "x = f" using assms(2) by blast
  then show "\<exists>r \<in> set (says (eff f)). P r \<and> subject (message r) = Some f"
    using r by blast
next
  assume "\<exists>r \<in> set (says (eff f)). P r \<and> subject (message r) = Some f"
  then show "\<exists>r \<in> set (concat (map (\<lambda>x. says (eff x)) xs)). P r \<and> subject (message r) = Some f"
    using assms(1) by auto
qed

lemma convert_effect_scope:
  assumes "path_is_file (map_of src) f"
  shows "Log INFO (Skip f) False \<in> set (says (convert_effect cdc src inp out f)) \<longleftrightarrow>
           \<not> jpeg_suffix f"
    and "(\<exists>r \<in> set (says (convert_effect cdc src inp out f)).
            is_attempt (message r) \<and> subject (message r) = Some f) \<longleftrightarrow> jpeg_suffix f"
  using file_not_dir [OF assms]
  by (auto simp: convert_effect_def Let_def except_records_def split: sum.splits prod.splits)

lemma compress_effect_scope:
  assumes "path_is_file (map_of src) f"
  shows "Log WARNING (NotJpegFile f) False \<in> set (says (compress_effect cdc src inp out q f)) \<longleftrightarrow>
           \<not> jpeg_suffix f"
    and "(\<exists>r \<in> set (says (compress_effect cdc src inp out q f)).
            is_attempt (message r) \<and> subject (message r) = Some f) \<longleftrightarrow> jpeg_suffix f"
  using file_not_dir [OF assms]
  by (auto simp: compress_effect_def compress_says_def Let_def
      split: sum.splits prod.splits if_splits)

lemma counter_main_total_record:
  assumes "path_exists (map_of src) inp"
  shows "Log INFO (TotalJpegFiles (length (jpeg_files src inp))) False
           \<in> set (report_log (projr (counter_main src inp)))"
  using assms
  by (auto simp: counter_main_def Let_def table_rows_duplicates)

section \<open>Open images\<close>

text \<open>The compressor's \<open>with\<close> statement: whatever its \<open>try\<close> statement does with a file,
  the images that are open afterwards are those that were open before.\<close>

lemma compress_file_closes_image:
  "opened (compress_file cdc src st file_path output_file_path q) = opened st"
  by (simp add: compress_file_def compress_with_body_def emit_def Let_def
      split: sum.splits prod.splits option.splits)

lemma compress_jpeg_closes_images:
  assumes "tree_ok src" "output_ok src input_path output_path (disk st)"
  shows "\<exists>st'. compress_jpeg cdc src input_path output_path q st = Inr st' \<and>
           opened st' = opened st"
proof -
  have "leaves_open (compress_effect cdc src input_path output_path q x) = []" for x
    by (simp add: compress_effect_def Let_def split: prod.splits)
  then show ?thesis
    using compress_jpeg_effects(1) [OF assms, of cdc q]
    by (simp add: opened_apply_effects)
qed

section \<open>The scope test on examples\<close>

lemma jpeg_suffix_examples:
  "jpeg_suffix [''in'', ''a.JPG'']"
  "jpeg_suffix [''in'', ''a.b.Jpeg'']"
  "\<not> jpeg_suffix [''in'', ''a.png'']"
  "\<not> jpeg_suffix [''in'', ''.jpg'']"
  "\<not> jpeg_suffix [''in'', ''jpg'']"
  "stem [''in'', ''a.b.Jpeg''] = ''a.b''"
  by (simp_all add: jpeg_suffix_def path_suffix_def stem_def path_name_def rfind_def lower_def
      lower_char_def Let_def)

section \<open>What the logs name\<close>

lemma detail_records_named:
  assumes "r \<in> set (detail_records rows)" "p \<in> set (named (message r))"
  shows "\<exists>nm c ps. (nm, c, ps) \<in> set rows \<and> p \<in> set ps"
  using assms by (fastforce simp: detail_records_def)

lemma group_of_subset: "set (group_of files nm) \<subseteq> set files"
  by (auto simp: group_of_def)

lemma counter_main_rows:
  assumes "counter_main src inp = Inr rep" "(nm, c, ps) \<in> set (reported rep)"
  shows "set ps \<subseteq> set (jpeg_files src inp)"
proof -
  have "rep = projr (counter_main src inp)"
    using assms(1) by simp
  then have "reported rep =
      map (\<lambda>(nm, c). (nm, c, group_of (jpeg_files src inp) nm)) (duplicates (jpeg_files src inp))"
    using counter_main_total [of src inp] by simp
  then have "ps = group_of (jpeg_files src inp) nm"
    using assms(2) by auto
  then show ?thesis
    using group_of_subset by simp
qed

lemma counter_main_named:
  assumes "counter_main src inp = Inr rep" "r \<in> set (report_log rep)"
    and "p \<in> set (named (message r))"
  shows "p = inp \<or> p \<in> set (jpeg_files src inp)"
proof (cases "path_exists (map_of src) inp \<and> duplicates (jpeg_files src inp) \<noteq> []")
  case False
  then show ?thesis
    using assms by (auto simp: counter_main_def Let_def split: if_splits)
next
  case True
  let ?rows = "map (\<lambda>(nm, c). (nm, c, group_of (jpeg_files src inp) nm))
      (duplicates (jpeg_files src inp))"
  have "r \<in> set (detail_records ?rows) \<or> named (message r) = [] \<or> named (message r) = [inp]"
    using assms(1,2) True
    by (auto simp: counter_main_def Let_def table_rows_duplicates)
  then show ?thesis
  proof (elim disjE)
    assume "r \<in> set (detail_records ?rows)"
    then obtain nm c ps where "(nm, c, ps) \<in> set ?rows" "p \<in> set ps"
      using detail_records_named [OF _ assms(3)] by blast
    then show ?thesis
      using group_of_subset by fastforce
  qed (use assms(3) in simp_all)
qed

lemma convert_says_entry:
  assumes "r \<in> set (says (convert_effect cdc src inp out x))"
  shows "is_entry_message (message r)" and "level r \<noteq> WARNING"
  using assms
  by (auto simp: convert_effect_def Let_def except_records_def
      split: if_splits sum.splits prod.splits)

lemma compress_says_entry:
  assumes "r \<in> set (says (compress_effect cdc src inp out q x))"
  shows "is_entry_message (message r)"
  using assms
  by (auto simp: compress_effect_def compress_says_def Let_def
      split: if_splits sum.splits prod.splits option.splits)

lemma convert_effect_output:
  assumes "path_is_file (map_of src) f" "jpeg_suffix f" "convert_output cdc src f = Some b"
  shows "writes (convert_effect cdc src inp out f) = Some (mirror inp out f, b)"
    and "Log INFO (SavedAsJpeg (mirror inp out f)) False \<in> set (says (convert_effect cdc src inp out f))"
  using assms file_not_dir [OF assms(1)]
  by (auto simp: convert_effect_def convert_result_def convert_output_def Let_def
      split: sum.splits)

section \<open>The claims\<close>




text \<open>
  C2, as stated, fails for the compressor: it skips directory entries and makes only the
  parents of files, so the empty directory \<open>in/empty\<close> of the example tree has no
  counterpart \<open>out/empty\<close> after the run.
\<close>

theorem compressor_leaves_out_empty_directory:
  "path_is_dir (map_of example_tree) [''in'', ''empty''] \<and>
   \<not> isl (compress_jpeg toy_codec example_tree [''in''] [''out''] 90 start) \<and>
   disk (projr (compress_jpeg toy_codec example_tree [''in''] [''out''] 90 start))
     [''out'', ''empty''] = None"
  by (simp add: run_defs example_tree_def)

text \<open>
  C2, amended. From an output root with nothing below it, the conversion leaves below
  the output root exactly the directories the input root has below it, path for path,
  empty ones included. The compression leaves exactly the directories that have a
  regular file of the walk somewhere beneath them: a directory with no file beneath
  it is not mirrored.
\<close>

theorem mirrored_directories:
  assumes "tree_ok src" "output_ok src input_path output_path (disk st)"
    and "path_exists (map_of src) input_path"
    and "\<forall>rel. rel \<noteq> [] \<longrightarrow> disk st (output_path @ rel) = None"
  shows "\<exists>st1 st2.
      process_jpeg_files cdc src input_path output_path st = Inr st1 \<and>
      compress_jpeg cdc src input_path output_path q st = Inr st2 \<and>
      {rel. rel \<noteq> [] \<and> path_is_dir (disk st1) (output_path @ rel)} =
        {rel. rel \<noteq> [] \<and> path_is_dir (map_of src) (input_path @ rel)} \<and>
      {rel. rel \<noteq> [] \<and> path_is_dir (disk st2) (output_path @ rel)} =
        {rel. rel \<noteq> [] \<and>
           (\<exists>f \<in> set (glob_all src input_path).
              path_is_file (map_of src) f \<and> strict_prefix (input_path @ rel) f)}"
proof -
  let ?ce = "convert_effect cdc src input_path output_path"
  let ?pe = "compress_effect cdc src input_path output_path q"
  let ?st0 = "st\<lparr>disk := make_dirs (disk st) output_path\<rparr>"
  let ?xs = "glob_all src input_path"
  let ?st1 = "apply_effects ?ce ?st0 ?xs" and ?st2 = "apply_effects ?pe ?st0 ?xs"
  have run1: "process_jpeg_files cdc src input_path output_path st = Inr ?st1"
    and ok1: "output_ok src input_path output_path (disk ?st1)"
    using process_jpeg_files_effects [OF assms(1,2,3)] by simp_all
  have run2: "compress_jpeg cdc src input_path output_path q st = Inr ?st2"
    and ok2: "output_ok src input_path output_path (disk ?st2)"
    using compress_jpeg_effects [OF assms(1,2)] by simp_all
  have conv: "path_is_dir (disk ?st1) (output_path @ rel) \<longleftrightarrow>
      path_is_dir (map_of src) (input_path @ rel)" if rel: "rel \<noteq> []" for rel
  proof
    assume "path_is_dir (disk ?st1) (output_path @ rel)"
    then show "path_is_dir (map_of src) (input_path @ rel)"
      using output_ok_dir [OF ok1 rel] by (simp add: path_is_dir_def)
  next
    assume d: "path_is_dir (map_of src) (input_path @ rel)"
    then have g: "input_path @ rel \<in> set ?xs"
      using dir_in_glob [OF assms(1) _ rel] by simp
    have "makes (?ce (input_path @ rel)) = Some (output_path @ rel)"
      using d by (simp add: convert_effect_def)
    then have "disk ?st1 (output_path @ rel) = Some Dir"
      using effects_dir_made [OF ok1 g, of rel] d by (simp add: path_is_dir_def)
    then show "path_is_dir (disk ?st1) (output_path @ rel)"
      by (simp add: path_is_dir_def)
  qed
  have comp: "path_is_dir (disk ?st2) (output_path @ rel) \<longleftrightarrow>
      (\<exists>f \<in> set ?xs. path_is_file (map_of src) f \<and> strict_prefix (input_path @ rel) f)"
    if rel: "rel \<noteq> []" for rel
  proof -
    have fresh: "disk ?st0 (output_path @ rel) = None"
      using assms(4) rel by (simp add: make_dirs_def)
    have "path_is_dir (disk ?st2) (output_path @ rel) \<longleftrightarrow> made_by ?pe ?xs (output_path @ rel)"
    proof
      assume "path_is_dir (disk ?st2) (output_path @ rel)"
      then show "made_by ?pe ?xs (output_path @ rel)"
        using fresh
        by (auto simp: path_is_dir_def disk_apply_effects split: option.splits if_splits)
    next
      assume m: "made_by ?pe ?xs (output_path @ rel)"
      then obtain f where "f \<in> set ?xs" "strict_prefix (input_path @ rel) f"
        using compress_made_by_iff [OF assms(1) rel] by blast
      then have "map_of src (input_path @ rel) = Some Dir"
        using tree_ok_prefix [OF assms(1), of f "input_path @ rel"]
        by (auto simp: glob_all_iff strict_prefix_def)
      then show "path_is_dir (disk ?st2) (output_path @ rel)"
        using made_dir_present [OF ok2 m] by (simp add: path_is_dir_def)
    qed
    then show ?thesis
      using compress_made_by_iff [OF assms(1) rel] by simp
  qed
  have "{rel. rel \<noteq> [] \<and> path_is_dir (disk ?st1) (output_path @ rel)} =
        {rel. rel \<noteq> [] \<and> path_is_dir (map_of src) (input_path @ rel)}"
    using conv by blast
  moreover have "{rel. rel \<noteq> [] \<and> path_is_dir (disk ?st2) (output_path @ rel)} =
        {rel. rel \<noteq> [] \<and>
           (\<exists>f \<in> set ?xs. path_is_file (map_of src) f \<and> strict_prefix (input_path @ rel) f)}"
    using comp by blast
  ultimately show ?thesis
    using run1 run2 by blast
qed

theorem mirrored_directories_witness:
  "tree_ok example_tree \<and>
   output_ok example_tree [''in''] [''out''] (disk start) \<and>
   path_exists (map_of example_tree) [''in''] \<and>
   disk start = root_only \<and>
   (\<exists>st1 st2.
      process_jpeg_files toy_codec example_tree [''in''] [''out''] start = Inr st1 \<and>
      compress_jpeg toy_codec example_tree [''in''] [''out''] 90 start = Inr st2 \<and>
      {rel. rel \<noteq> [] \<and> path_is_dir (disk st1) ([''out''] @ rel)} =
        {rel. rel \<noteq> [] \<and> path_is_dir (map_of example_tree) ([''in''] @ rel)} \<and>
      {rel. rel \<noteq> [] \<and> path_is_dir (disk st2) ([''out''] @ rel)} =
        {rel. rel \<noteq> [] \<and>
           (\<exists>f \<in> set (glob_all example_tree [''in'']).
              path_is_file (map_of example_tree) f \<and> strict_prefix ([''in''] @ rel) f)})"
proof -
  have t: "tree_ok example_tree"
    by (rule tree_ok_example_tree)
  have o: "output_ok example_tree [''in''] [''out''] (disk start)"
    by (simp add: start_def output_ok_root_only)
  have i: "path_exists (map_of example_tree) [''in'']"
    by (simp add: path_exists_def example_tree_def)
  have s: "disk start = root_only"
    by (simp add: start_def)
  have f: "\<forall>rel. rel \<noteq> [] \<longrightarrow> disk start ([''out''] @ rel) = None"
    by (simp add: start_def root_only_def)
  show ?thesis
    using mirrored_directories [OF t o i f, of toy_codec 90] t o i s by (intro conjI)
qed















text \<open>
  C8. The counter always returns a report. The groups it lists are the groups of
  in-scope files by base name that have more than one member, each once: a group is
  listed with all its paths, in walk order, and with their number as its count. The
  list is ordered by falling count, and the groups of one count stand in the order in
  which the walk first met their base names.
\<close>

theorem duplicate_groups_reported:
  "\<exists>rep. counter_main src input_path = Inr rep \<and>
     (\<forall>(nm, count, all_paths) \<in> set (reported rep).
        all_paths = group_of (jpeg_files src input_path) nm \<and>
        count = length all_paths \<and> count > 1) \<and>
     distinct (map fst (reported rep)) \<and>
     set (map fst (reported rep)) =
       {nm. length (group_of (jpeg_files src input_path) nm) > 1} \<and>
     sorted_wrt (\<lambda>a b. fst (snd a) \<ge> fst (snd b)) (reported rep) \<and>
     (\<forall>k. map fst (filter (\<lambda>r. fst (snd r) = k) (reported rep)) =
          filter (\<lambda>nm. length (group_of (jpeg_files src input_path) nm) = k \<and> k > 1)
            (first_seen (map stem (jpeg_files src input_path))))"
proof -
  let ?files = "jpeg_files src input_path"
  let ?h = "\<lambda>(nm, c). (nm, c, group_of ?files nm)"
  let ?rep = "projr (counter_main src input_path)"
  have run: "counter_main src input_path = Inr ?rep"
    and rows: "reported ?rep = map ?h (duplicates ?files)"
    using counter_main_total [of src input_path] by simp_all
  have names: "map fst (reported ?rep) = map fst (duplicates ?files)"
    unfolding rows by (simp add: comp_def case_prod_beta)
  have members: "\<forall>(nm, count, all_paths) \<in> set (reported ?rep).
      all_paths = group_of ?files nm \<and> count = length all_paths \<and> count > 1"
    unfolding rows by (auto simp: duplicates_member)
  have dist: "distinct (map fst (reported ?rep))"
    unfolding names by (rule distinct_names_duplicates)
  have "nm \<in> stem ` set ?files" if "length (group_of ?files nm) > 1" for nm
  proof -
    from that have "group_of ?files nm \<noteq> []" by auto
    then show ?thesis by (auto simp: group_of_def filter_empty_conv)
  qed
  then have "nm \<in> set (map fst (duplicates ?files)) \<longleftrightarrow>
      length (group_of ?files nm) > 1" for nm
  proof -
    assume a: "\<And>nm. 1 < length (group_of ?files nm) \<Longrightarrow> nm \<in> stem ` set ?files"
    show ?thesis
    proof
      assume "nm \<in> set (map fst (duplicates ?files))"
      then obtain c where "(nm, c) \<in> set (duplicates ?files)" by auto
      then show "length (group_of ?files nm) > 1" by (simp add: duplicates_member)
    next
      assume "length (group_of ?files nm) > 1"
      then have "(nm, length (group_of ?files nm)) \<in> set (duplicates ?files)"
        using a [of nm] by (simp add: duplicates_member)
      then show "nm \<in> set (map fst (duplicates ?files))"
        by (metis fst_conv image_eqI set_map)
    qed
  qed
  then have which: "set (map fst (reported ?rep)) = {nm. length (group_of ?files nm) > 1}"
    unfolding names by blast
  have sorted: "sorted_wrt (\<lambda>a b. fst (snd a) \<ge> fst (snd b)) (reported ?rep)"
    unfolding rows sorted_wrt_map
    using duplicates_sorted [of ?files] by (simp add: case_prod_beta)
  have ties: "map fst (filter (\<lambda>r. fst (snd r) = k) (reported ?rep)) =
      filter (\<lambda>nm. length (group_of ?files nm) = k \<and> k > 1) (first_seen (map stem ?files))"
    for k
    unfolding rows filter_map
    using duplicates_ties [of k ?files] by (simp add: comp_def case_prod_beta)
  show ?thesis
    using run members dist which sorted ties by (intro exI [of _ ?rep] conjI allI)
qed

theorem duplicate_groups_reported_witness:
  "reported (projr (counter_main album_tree [''in''])) =
     [(''x'', 3, [[''in'', ''b'', ''x.jpg''], [''in'', ''c'', ''x.jpg''], [''in'', ''c'', ''x.jpeg'']]),
      (''photo1'', 2, [[''in'', ''a'', ''photo1.jpg''], [''in'', ''b'', ''photo1.jpeg'']]),
      (''photo2'', 2, [[''in'', ''a'', ''photo2.jpg''], [''in'', ''b'', ''photo2.JPG'']])] \<and>
   (\<exists>rep. counter_main album_tree [''in''] = Inr rep \<and>
      distinct (map fst (reported rep)) \<and>
      sorted_wrt (\<lambda>a b. fst (snd a) \<ge> fst (snd b)) (reported rep) \<and>
      map fst (filter (\<lambda>r. fst (snd r) = 2) (reported rep)) =
        filter (\<lambda>nm. length (group_of (jpeg_files album_tree [''in'']) nm) = 2 \<and> (2::nat) > 1)
          (first_seen (map stem (jpeg_files album_tree [''in'']))))"
proof -
  have "reported (projr (counter_main album_tree [''in''])) =
     [(''x'', 3, [[''in'', ''b'', ''x.jpg''], [''in'', ''c'', ''x.jpg''], [''in'', ''c'', ''x.jpeg'']]),
      (''photo1'', 2, [[''in'', ''a'', ''photo1.jpg''], [''in'', ''b'', ''photo1.jpeg'']]),
      (''photo2'', 2, [[''in'', ''a'', ''photo2.jpg''], [''in'', ''b'', ''photo2.JPG'']])]"
    by (simp add: counter_main_def album_tree_def reported_def jpeg_files_def glob_all_def
        path_exists_def path_is_dir_def path_is_file_def jpeg_suffix_def path_suffix_def
        stem_def path_name_def rfind_def lower_def lower_char_def Let_def duplicates_def
        filename_counter_def Counter_def most_common_def filename_paths_def)
  moreover from duplicate_groups_reported [of album_tree "[''in'']"]
  have "\<exists>rep. counter_main album_tree [''in''] = Inr rep \<and>
      distinct (map fst (reported rep)) \<and>
      sorted_wrt (\<lambda>a b. fst (snd a) \<ge> fst (snd b)) (reported rep) \<and>
      map fst (filter (\<lambda>r. fst (snd r) = 2) (reported rep)) =
        filter (\<lambda>nm. length (group_of (jpeg_files album_tree [''in'']) nm) = 2 \<and> (2::nat) > 1)
          (first_seen (map stem (jpeg_files album_tree [''in''])))"
    by blast
  ultimately show ?thesis by (intro conjI)
qed

text \<open>
  C9 fails for the converter. It opens the image without \<open>with\<close> and never closes it:
  when the save raises while decoding, the loop body ends with the source image still
  open. The compressor, on the same tree, ends with none open.
\<close>

theorem converter_leaves_image_open:
  "\<not> isl (process_jpeg_files toy_codec truncated_tree [''in''] [''out''] start) \<and>
   opened (projr (process_jpeg_files toy_codec truncated_tree [''in''] [''out''] start)) =
     [[''in'', ''cut.jpg'']] \<and>
   added start (projr (process_jpeg_files toy_codec truncated_tree [''in''] [''out''] start)) =
     [Log INFO (DetectedFormat [''in'', ''cut.jpg''] ''JPEG'') False,
      Log ERROR (ProcessingFailed [''in'', ''cut.jpg''] (OSError ''image file is truncated'')) False,
      Log ERROR (Exc (OSError ''image file is truncated'')) True] \<and>
   \<not> isl (compress_jpeg toy_codec truncated_tree [''in''] [''out''] 90 start) \<and>
   opened (projr (compress_jpeg toy_codec truncated_tree [''in''] [''out''] 90 start)) = []"
  by (simp add: run_defs truncated_tree_def added_def)




end
